theory Spec2Isabelle
  imports Main "HOL-Library.Sublist"
begin

section \<open>Data model\<close>

text \<open>
  A \<open>JsonValue\<close> of \<^verbatim>\<open>types.ts\<close>: string, number, boolean, null, array, or plain
  object. The number payload is only ever copied by the deserializer, so it is the type
  parameter \<open>'n\<close>. A plain object is what the expression \<^verbatim>\<open>{}\<close> creates and the
  assignment \<^verbatim>\<open>object[key] = value\<close> fills: its own properties in the order in which
  the language enumerates them, and its prototype, which the assignment can replace when
  the key is \<^verbatim>\<open>__proto__\<close> (see \<open>obj_assign\<close>).
\<close>

datatype 'n json =
    JString string
  | JNumber 'n
  | JBool bool
  | JNull
  | JArray "'n json list"
  | JObject "'n proto" "(string \<times> 'n json) list"
and 'n proto =
    ObjectPrototype
  | NullPrototype
  | ValuePrototype "'n json"

text \<open>
  A \<open>JsonPath\<close>: object keys and array indexes from the root. The \<open>path\<close> field of a
  chunk is optional in the deserializer's type parameter (\<^verbatim>\<open>path?: JsonPath\<close>).
\<close>

datatype path_segment = Key string | Index nat

type_synonym json_path = "path_segment list"

datatype string_role = KEY | VALUE

datatype 'n json_chunk =
    OBJECT_START
  | OBJECT_END
  | ARRAY_START
  | ARRAY_END
  | STRING_START string_role
  | STRING_CHUNK string_role string
  | STRING_END string_role
  | NUMBER_VALUE 'n
  | BOOLEAN_VALUE bool
  | NULL_VALUE

record 'n chunk =
  kind :: "'n json_chunk"
  path :: "json_path option"

text \<open>
  \<open>AnyState\<close>, lines 11 to 28. The fields of \<open>ROOT\<close> are \<open>value\<close> and \<open>path\<close>; those
  of \<open>OBJECT_PROPERTY\<close> are \<open>object\<close> (prototype and own properties), \<open>key\<close>, \<open>value\<close>
  and \<open>parent\<close>; those of \<open>ARRAY_ITEM\<close> are \<open>array\<close>, \<open>value\<close> and \<open>parent\<close>.
  \<open>None\<close> is \<^verbatim>\<open>undefined\<close>.

  In the source the \<open>array\<close> (or \<open>object\<close>) of a state and the \<open>value\<close> of its parent
  are one and the same JavaScript object (lines 84 and 90, 100 and 106), and the parent is
  neither read nor written while the child is the current state. The model keeps the
  contents in the child and writes them to the parent's \<open>value\<close> when the child is left
  (lines 95 and 112), which is the first moment the parent's \<open>value\<close> is read again.
\<close>

datatype 'n state =
    ROOT "'n json option" "json_path option"
  | OBJECT_PROPERTY "'n proto" "(string \<times> 'n json) list" string "'n json option" "'n state"
  | ARRAY_ITEM "'n json list" "'n json option" "'n state"

type_synonym 'n json_value_and_path = "'n json \<times> json_path option"

section \<open>Property assignment on a plain object\<close>

text \<open>
  The own property keys of an ordinary object are enumerated with the array indexes
  first, in ascending numeric order, and then the other strings in the order in which
  the properties were created. An array index is the canonical decimal form of an
  integer below \<open>2^32 - 1\<close>.
\<close>

definition index_of :: "string \<Rightarrow> nat" where
  "index_of k = foldl (\<lambda>n c. 10 * n + (of_char c - 48)) 0 k"

definition is_digit :: "char \<Rightarrow> bool" where
  "is_digit c = (48 \<le> (of_char c :: nat) \<and> (of_char c :: nat) \<le> 57)"

definition is_array_index :: "string \<Rightarrow> bool" where
  "is_array_index k =
     (k \<noteq> [] \<and> list_all is_digit k \<and> (k = ''0'' \<or> hd k \<noteq> CHR ''0'')
      \<and> index_of k < 4294967295)"

fun has_key :: "string \<Rightarrow> (string \<times> 'a) list \<Rightarrow> bool" where
  "has_key k [] = False"
| "has_key k ((k', v) # ps) = (k' = k \<or> has_key k ps)"

fun replace_value :: "string \<Rightarrow> 'a \<Rightarrow> (string \<times> 'a) list \<Rightarrow> (string \<times> 'a) list" where
  "replace_value k v [] = []"
| "replace_value k v ((k', v') # ps) =
     (if k' = k then (k', v) # ps else (k', v') # replace_value k v ps)"

fun insert_index :: "string \<Rightarrow> 'a \<Rightarrow> (string \<times> 'a) list \<Rightarrow> (string \<times> 'a) list" where
  "insert_index k v [] = [(k, v)]"
| "insert_index k v ((k', v') # ps) =
     (if is_array_index k' \<and> index_of k' < index_of k
      then (k', v') # insert_index k v ps
      else (k, v) # (k', v') # ps)"

definition create_property :: "string \<Rightarrow> 'a \<Rightarrow> (string \<times> 'a) list \<Rightarrow> (string \<times> 'a) list" where
  "create_property k v ps =
     (if is_array_index k then insert_index k v ps else ps @ [(k, v)])"

text \<open>
  Whether the assignment of the key \<^verbatim>\<open>__proto__\<close> reaches the accessor of
  \<^verbatim>\<open>Object.prototype\<close>: it does unless the prototype chain ends in \<^verbatim>\<open>null\<close> or an
  object on the chain has an own property of that name. The prototype chain of an array
  leads to \<^verbatim>\<open>Object.prototype\<close>.
\<close>

fun proto_setter_of_value :: "'n json \<Rightarrow> bool"
  and proto_setter_reached :: "'n proto \<Rightarrow> bool" where
  "proto_setter_of_value (JObject p ps) =
     (if has_key ''__proto__'' ps then False else proto_setter_reached p)"
| "proto_setter_of_value (JArray vs) = True"
| "proto_setter_of_value (JString s) = True"
| "proto_setter_of_value (JNumber n) = True"
| "proto_setter_of_value (JBool b) = True"
| "proto_setter_of_value JNull = True"
| "proto_setter_reached ObjectPrototype = True"
| "proto_setter_reached NullPrototype = False"
| "proto_setter_reached (ValuePrototype v) = proto_setter_of_value v"

text \<open>
  The setter replaces the prototype when the assigned value is an object (an array is
  one) or \<^verbatim>\<open>null\<close>, and does nothing for any other value.
\<close>

fun set_prototype :: "'n json \<Rightarrow> 'n proto \<Rightarrow> 'n proto" where
  "set_prototype (JObject q qs) p = ValuePrototype (JObject q qs)"
| "set_prototype (JArray vs) p = ValuePrototype (JArray vs)"
| "set_prototype JNull p = NullPrototype"
| "set_prototype v p = p"

text \<open>
  \<^verbatim>\<open>object[key] = value\<close> (line 49) on the object with prototype \<open>p\<close> and own
  properties \<open>ps\<close>: an own property is overwritten where it stands; otherwise the key
  \<^verbatim>\<open>__proto__\<close> goes to the setter when the setter is reached; otherwise a new own
  property is created.
\<close>

definition obj_assign ::
  "string \<Rightarrow> 'n json \<Rightarrow> 'n proto \<times> (string \<times> 'n json) list
     \<Rightarrow> 'n proto \<times> (string \<times> 'n json) list" where
  "obj_assign k v ob =
     (case ob of (p, ps) \<Rightarrow>
        if has_key k ps then (p, replace_value k v ps)
        else if k = ''__proto__'' \<and> proto_setter_reached p then (set_prototype v p, ps)
        else (p, create_property k v ps))"

section \<open>The deserializer\<close>

definition initial_state :: "'n state" where
  "initial_state = ROOT None (Some [])"

text \<open>\<^verbatim>\<open>this.state.value = v\<close>\<close>

fun set_value :: "'n json option \<Rightarrow> 'n state \<Rightarrow> 'n state" where
  "set_value v (ROOT _ p) = ROOT v p"
| "set_value v (OBJECT_PROPERTY pr ps k _ parent) = OBJECT_PROPERTY pr ps k v parent"
| "set_value v (ARRAY_ITEM a _ parent) = ARRAY_ITEM a v parent"

fun get_value :: "'n state \<Rightarrow> 'n json option" where
  "get_value (ROOT v p) = v"
| "get_value (OBJECT_PROPERTY pr ps k v parent) = v"
| "get_value (ARRAY_ITEM a v parent) = v"

text \<open>\<^verbatim>\<open>if (this.state.type === StateType.ROOT) { this.state.path = chunk.path; }\<close>\<close>

fun set_root_path :: "json_path option \<Rightarrow> 'n state \<Rightarrow> 'n state" where
  "set_root_path p (ROOT v _) = ROOT v p"
| "set_root_path p st = st"

text \<open>
  \<open>handleValueEnd\<close>, lines 41 to 59. The result is the new state and what was passed
  to \<^verbatim>\<open>controller.enqueue\<close>.
\<close>

fun handleValueEnd :: "'n state \<Rightarrow> 'n state \<times> 'n json_value_and_path list" where
  "handleValueEnd (ROOT v p) =
     (case v of
        Some x \<Rightarrow> (ROOT None p, [(x, p)])
      | None \<Rightarrow> (ROOT None p, []))"
| "handleValueEnd (OBJECT_PROPERTY pr ps k v parent) =
     (case v of
        Some x \<Rightarrow>
          (case obj_assign k x (pr, ps) of
             (pr', ps') \<Rightarrow> (OBJECT_PROPERTY pr' ps' [] None parent, []))
      | None \<Rightarrow> (OBJECT_PROPERTY pr ps [] None parent, []))"
| "handleValueEnd (ARRAY_ITEM a v parent) =
     (case v of
        Some x \<Rightarrow> (ARRAY_ITEM (a @ [x]) None parent, [])
      | None \<Rightarrow> (ARRAY_ITEM a None parent, []))"

text \<open>
  \<^verbatim>\<open>this.state.value += chunk.value\<close> (line 77) with a string on the right: string
  concatenation after the left operand is converted to a string. \<^verbatim>\<open>undefined\<close>
  converts to the string \<^verbatim>\<open>undefined\<close>. The conversion of a value that is not a string
  is the language's, not the source file's, and is the parameter \<open>to_string\<close>; lemma
  \<open>value_in_progress\<close> shows that it is never applied on a state the deserializer
  reaches.
\<close>

fun plus_string :: "('n json \<Rightarrow> string) \<Rightarrow> 'n json option \<Rightarrow> string \<Rightarrow> 'n json" where
  "plus_string to_string None t = JString (''undefined'' @ t)"
| "plus_string to_string (Some (JString s)) t = JString (s @ t)"
| "plus_string to_string (Some v) t = JString (to_string v @ t)"

text \<open>\<open>transform\<close>, lines 61 to 117.\<close>

fun transform ::
  "('n json \<Rightarrow> string) \<Rightarrow> 'n chunk \<Rightarrow> 'n state \<Rightarrow> 'n state \<times> 'n json_value_and_path list" where
  "transform to_string c st =
     (case kind c of
        NUMBER_VALUE n \<Rightarrow>
          handleValueEnd (set_root_path (path c) (set_value (Some (JNumber n)) st))
      | BOOLEAN_VALUE b \<Rightarrow>
          handleValueEnd (set_root_path (path c) (set_value (Some (JBool b)) st))
      | NULL_VALUE \<Rightarrow>
          handleValueEnd (set_root_path (path c) (set_value (Some JNull) st))
      | STRING_START role \<Rightarrow>
          (if role = VALUE
           then (set_root_path (path c) (set_value (Some (JString [])) st), [])
           else (st, []))
      | STRING_CHUNK role t \<Rightarrow>
          (if role = VALUE
           then (set_value (Some (plus_string to_string (get_value st) t)) st, [])
           else (case st of
                   OBJECT_PROPERTY pr ps k v parent \<Rightarrow>
                     (OBJECT_PROPERTY pr ps (k @ t) v parent, [])
                 | _ \<Rightarrow> (st, [])))
      | STRING_END role \<Rightarrow>
          (if role = VALUE then handleValueEnd st else (st, []))
      | ARRAY_START \<Rightarrow>
          (ARRAY_ITEM [] None
             (set_root_path (path c) (set_value (Some (JArray [])) st)), [])
      | ARRAY_END \<Rightarrow>
          (case st of
             ARRAY_ITEM a v parent \<Rightarrow> handleValueEnd (set_value (Some (JArray a)) parent)
           | _ \<Rightarrow> (st, []))
      | OBJECT_START \<Rightarrow>
          (OBJECT_PROPERTY ObjectPrototype [] [] None
             (set_root_path (path c) (set_value (Some (JObject ObjectPrototype [])) st)), [])
      | OBJECT_END \<Rightarrow>
          (case st of
             OBJECT_PROPERTY pr ps k v parent \<Rightarrow>
               handleValueEnd (set_value (Some (JObject pr ps)) parent)
           | _ \<Rightarrow> (st, [])))"

text \<open>
  The stream calls \<open>transform\<close> once per chunk, in order; \<open>run\<close> is the state after
  the chunks and everything enqueued on the way.
\<close>

fun run ::
  "('n json \<Rightarrow> string) \<Rightarrow> 'n chunk list \<Rightarrow> 'n state \<Rightarrow> 'n state \<times> 'n json_value_and_path list" where
  "run to_string [] st = (st, [])"
| "run to_string (c # cs) st =
     (case transform to_string c st of
        (st', out) \<Rightarrow>
          (case run to_string cs st' of (st'', out') \<Rightarrow> (st'', out @ out')))"

definition deserialize ::
  "('n json \<Rightarrow> string) \<Rightarrow> 'n chunk list \<Rightarrow> 'n json_value_and_path list" where
  "deserialize to_string cs = snd (run to_string cs initial_state)"

section \<open>Well-formed chunk sequences\<close>

text \<open>
  A string as the tokenizer delivers it: a start chunk, any number of content chunks and
  an end chunk, all of one role. Every chunk carries its own path.
\<close>

definition string_run ::
  "string_role \<Rightarrow> json_path option \<Rightarrow> (json_path option \<times> string) list
     \<Rightarrow> json_path option \<Rightarrow> 'n chunk list" where
  "string_run r p ts p' =
     \<lparr>kind = STRING_START r, path = p\<rparr>
       # map (\<lambda>(q, t). \<lparr>kind = STRING_CHUNK r t, path = q\<rparr>) ts
       @ [\<lparr>kind = STRING_END r, path = p'\<rparr>]"

text \<open>
  The object that results from assigning the members \<open>ms\<close>, in their order, to the
  object \<open>ob\<close>.
\<close>

definition build_object ::
  "'n proto \<times> (string \<times> 'n json) list \<Rightarrow> (string \<times> 'n json) list
     \<Rightarrow> 'n proto \<times> (string \<times> 'n json) list" where
  "build_object ob ms = foldl (\<lambda>ob' (k, v). obj_assign k v ob') ob ms"

definition object_value :: "'n proto \<times> (string \<times> 'n json) list \<Rightarrow> 'n json" where
  "object_value ob = JObject (fst ob) (snd ob)"

text \<open>
  The chunk sequences of section 3 of the specification: every start has its end, with
  stack discipline; an object is a sequence of members, each a key string followed by a
  value; an array is a sequence of values. \<open>wf_value cs v\<close> says that \<open>cs\<close> is the
  chunk sequence of exactly one JSON value and that \<open>v\<close> is the value it stands for.
\<close>

inductive wf_value :: "'n chunk list \<Rightarrow> 'n json \<Rightarrow> bool"
  and wf_items :: "'n chunk list \<Rightarrow> 'n json list \<Rightarrow> bool"
  and wf_members :: "'n chunk list \<Rightarrow> (string \<times> 'n json) list \<Rightarrow> bool" where
  wf_number: "wf_value [\<lparr>kind = NUMBER_VALUE n, path = p\<rparr>] (JNumber n)"
| wf_boolean: "wf_value [\<lparr>kind = BOOLEAN_VALUE b, path = p\<rparr>] (JBool b)"
| wf_null: "wf_value [\<lparr>kind = NULL_VALUE, path = p\<rparr>] JNull"
| wf_string: "wf_value (string_run VALUE p ts p') (JString (concat (map snd ts)))"
| wf_array: "wf_items cs vs \<Longrightarrow>
     wf_value (\<lparr>kind = ARRAY_START, path = p\<rparr> # cs @ [\<lparr>kind = ARRAY_END, path = p'\<rparr>])
       (JArray vs)"
| wf_object: "wf_members cs ms \<Longrightarrow>
     wf_value (\<lparr>kind = OBJECT_START, path = p\<rparr> # cs @ [\<lparr>kind = OBJECT_END, path = p'\<rparr>])
       (object_value (build_object (ObjectPrototype, []) ms))"
| wf_items_nil: "wf_items [] []"
| wf_items_cons: "wf_value c v \<Longrightarrow> wf_items cs vs \<Longrightarrow> wf_items (c @ cs) (v # vs)"
| wf_members_nil: "wf_members [] []"
| wf_members_cons: "wf_value c v \<Longrightarrow> wf_members cs ms \<Longrightarrow>
     wf_members (string_run KEY p ts p' @ c @ cs) ((concat (map snd ts), v) # ms)"

text \<open>The chunks on which \<open>transform\<close> reaches no call of \<open>handleValueEnd\<close>.\<close>

definition quiet :: "'n chunk \<Rightarrow> bool" where
  "quiet c =
     (case kind c of
        STRING_START r \<Rightarrow> True
      | STRING_CHUNK r t \<Rightarrow> True
      | STRING_END r \<Rightarrow> r = KEY
      | ARRAY_START \<Rightarrow> True
      | OBJECT_START \<Rightarrow> True
      | _ \<Rightarrow> False)"

text \<open>The tests \<^verbatim>\<open>this.state.type === StateType.OBJECT_PROPERTY\<close> and
  \<^verbatim>\<open>this.state.type === StateType.ARRAY_ITEM\<close> of lines 94 and 111.\<close>

fun is_object_property :: "'n state \<Rightarrow> bool" where
  "is_object_property (OBJECT_PROPERTY pr ps k v parent) = True"
| "is_object_property st = False"

fun is_array_item :: "'n state \<Rightarrow> bool" where
  "is_array_item (ARRAY_ITEM a v parent) = True"
| "is_array_item st = False"

text \<open>
  The order of the own property keys: a key that is an array index is preceded only by
  array indexes that are not larger.
\<close>

definition key_before :: "string \<Rightarrow> string \<Rightarrow> bool" where
  "key_before k k' =
     (if is_array_index k' then is_array_index k \<and> index_of k \<le> index_of k' else True)"

text \<open>The keys \<open>ks\<close> in the order of their first occurrence.\<close>

definition insertion_order :: "string list \<Rightarrow> string list" where
  "insertion_order ks = foldl (\<lambda>acc k. if k \<in> set acc then acc else acc @ [k]) [] ks"

text \<open>A value in progress that is \<^verbatim>\<open>undefined\<close> or a string.\<close>

fun string_or_undefined :: "'n json option \<Rightarrow> bool" where
  "string_or_undefined None = True"
| "string_or_undefined (Some (JString s)) = True"
| "string_or_undefined (Some v) = False"

section \<open>The stream splitter\<close>

text \<open>
  Modelled from the spec: the stream splitter (\<open>JsonPathStreamSplitter\<close>), whose source
  is not among the files at hand. Sections 4.4 and 9 of the specification describe it as
  a table of per-subtree buffers with a status flag, one entry per matched subtree, in
  the order in which the opening boundaries arrive. An entry holds the path of the
  subtree, the chunks not yet delivered to its reader, whether the closing boundary has
  arrived, the status, and the failure that the reader's next read reports, if any.
\<close>

datatype sub_status = pending | active | cancelled | completed

record ('n, 'e) sub_stream =
  sub_path :: "json_path option"
  buffered :: "'n chunk list"
  closed :: bool
  status :: sub_status
  sub_failure :: "'e option"

text \<open>
  Modelled from the spec: the state of the splitter. \<open>table\<close> holds the sub-streams,
  \<open>handed\<close> counts the descriptors already read from the main sequence, \<open>open_depth\<close>
  counts the boundaries of the current subtree that are still open, \<open>ended\<close> says that
  the upstream has ended normally, \<open>main_failure\<close> is the failure of the upstream, if
  any, and \<open>buffer_limit\<close> is the number of chunks that the buffer of one sub-stream
  may hold (the backpressure limit of sections 4.4 and 5).
\<close>

record ('n, 'e) splitter =
  table :: "('n, 'e) sub_stream list"
  handed :: nat
  open_depth :: nat
  ended :: bool
  main_failure :: "'e option"
  buffer_limit :: nat

text \<open>
  Modelled from the spec: the outcome of one read of a sequence: an item, the normal end,
  nothing yet (the read stays pending), or the failure.
\<close>

datatype ('a, 'e) read_result = Item 'a | Finished | Waiting | Failed 'e

definition new_splitter :: "nat \<Rightarrow> ('n, 'e) splitter" where
  "new_splitter limit =
     \<lparr>table = [], handed = 0, open_depth = 0, ended = False, main_failure = None,
      buffer_limit = limit\<rparr>"

text \<open>Modelled from the spec: the boundary chunks, which open and close a subtree.\<close>

fun opens :: "'n json_chunk \<Rightarrow> bool" where
  "opens OBJECT_START = True"
| "opens ARRAY_START = True"
| "opens (STRING_START r) = True"
| "opens k = False"

fun closes :: "'n json_chunk \<Rightarrow> bool" where
  "closes OBJECT_END = True"
| "closes ARRAY_END = True"
| "closes (STRING_END r) = True"
| "closes k = False"

definition depth_after :: "'n json_chunk \<Rightarrow> nat \<Rightarrow> nat" where
  "depth_after k d = (if opens k then d + 1 else if closes k then d - 1 else d)"

text \<open>Modelled from the spec: the chunks with which a value can begin.\<close>

fun begins_value :: "'n json_chunk \<Rightarrow> bool" where
  "begins_value (NUMBER_VALUE n) = True"
| "begins_value (BOOLEAN_VALUE b) = True"
| "begins_value NULL_VALUE = True"
| "begins_value k = opens k"

text \<open>
  Modelled from the spec: what the splitter does with a chunk that it has read from its
  upstream. With no subtree open, a chunk that begins a value is the opening boundary
  of a new matched subtree: a sub-stream with the path of the chunk is created at once.
  Any other chunk belongs to the subtree that was opened last and is appended to its
  buffer, unless its reader has cancelled it, in which case it is dropped. Whether the
  splitter reads the chunk at all is decided by \<open>accept\<close> below.
\<close>

definition append_chunk :: "'n chunk \<Rightarrow> bool \<Rightarrow> ('n, 'e) sub_stream \<Rightarrow> ('n, 'e) sub_stream" where
  "append_chunk c last_one sub =
     sub\<lparr>buffered := (if status sub = cancelled then [] else buffered sub @ [c]),
         closed := last_one\<rparr>"

definition store :: "'n chunk \<Rightarrow> ('n, 'e) splitter \<Rightarrow> ('n, 'e) splitter" where
  "store c s =
     (if table s = [] \<or> (open_depth s = 0 \<and> begins_value (kind c))
      then s\<lparr>table := table s @
                [\<lparr>sub_path = path c, buffered = [c], closed = (depth_after (kind c) 0 = 0),
                  status = pending, sub_failure = None\<rparr>],
              open_depth := depth_after (kind c) 0\<rparr>
      else s\<lparr>table := butlast (table s) @
                [append_chunk c (depth_after (kind c) (open_depth s) = 0) (last (table s))],
              open_depth := depth_after (kind c) (open_depth s)\<rparr>)"

text \<open>
  Modelled from the spec: backpressure at the splitter (sections 4.4 and 5). The
  splitter must not read the next chunk of its upstream once that chunk belongs to a
  sub-stream whose reader is not pulling and whose buffer has reached its limit. A
  reader that is pulling has received every buffered chunk, so that with a limit of at
  least one chunk the splitter stalls exactly when the buffer that the chunk goes to is
  full. The chunks of a cancelled sub-stream are dropped without buffering and never
  stall the splitter. The opening chunk of a subtree goes to the empty buffer of the
  new sub-stream.
\<close>

definition stalls :: "'n chunk \<Rightarrow> ('n, 'e) splitter \<Rightarrow> bool" where
  "stalls c s =
     (if table s = [] \<or> (open_depth s = 0 \<and> begins_value (kind c))
      then buffer_limit s = 0
      else status (last (table s)) \<noteq> cancelled
           \<and> buffer_limit s \<le> length (buffered (last (table s))))"

text \<open>
  Modelled from the spec: the upstream offers its next chunk. The splitter reads and
  stores it unless it stalls; the result says whether the chunk was read. A chunk that
  was not read stays with the upstream, which cannot go on before it is read.
\<close>

definition accept :: "'n chunk \<Rightarrow> ('n, 'e) splitter \<Rightarrow> bool \<times> ('n, 'e) splitter" where
  "accept c s = (if stalls c s then (False, s) else (True, store c s))"

text \<open>Modelled from the spec: the upstream ends normally.\<close>

definition upstream_end :: "('n, 'e) splitter \<Rightarrow> ('n, 'e) splitter" where
  "upstream_end s = s\<lparr>ended := True\<rparr>"

text \<open>
  Modelled from the spec: the upstream fails or is aborted with \<open>e\<close>. The failure is
  delivered to the main sequence and to every sub-stream already emitted, whatever its
  status (abort propagation, section 4.4).
\<close>

definition upstream_abort :: "'e \<Rightarrow> ('n, 'e) splitter \<Rightarrow> ('n, 'e) splitter" where
  "upstream_abort e s =
     s\<lparr>table := map (\<lambda>sub. sub\<lparr>sub_failure := Some e\<rparr>) (table s), main_failure := Some e\<rparr>"

text \<open>
  Modelled from the spec: one read of the main sequence. It yields the next descriptor
  (the index of the sub-stream in the table, and its path), ends after the last
  descriptor once the upstream has ended, and fails once the upstream has failed.
\<close>

definition read_main ::
  "('n, 'e) splitter \<Rightarrow> (nat \<times> json_path option, 'e) read_result \<times> ('n, 'e) splitter" where
  "read_main s =
     (case main_failure s of
        Some e \<Rightarrow> (Failed e, s)
      | None \<Rightarrow>
          if handed s < length (table s)
          then (Item (handed s, sub_path (table s ! handed s)), s\<lparr>handed := handed s + 1\<rparr>)
          else if ended s then (Finished, s) else (Waiting, s))"

text \<open>
  Modelled from the spec: one read of a sub-stream. It yields the next buffered chunk
  and ends once the closing boundary has been delivered. A sub-stream that the splitter
  has not emitted has nothing to read.
\<close>

definition read_from :: "('n, 'e) sub_stream \<Rightarrow> ('n chunk, 'e) read_result \<times> ('n, 'e) sub_stream" where
  "read_from sub =
     (case sub_failure sub of
        Some e \<Rightarrow> (Failed e, sub)
      | None \<Rightarrow>
          if status sub = cancelled then (Finished, sub)
          else (case buffered sub of
                  c # cs \<Rightarrow>
                    (Item c, sub\<lparr>buffered := cs,
                                status := (if cs = [] \<and> closed sub then completed else active)\<rparr>)
                | [] \<Rightarrow> if closed sub then (Finished, sub) else (Waiting, sub\<lparr>status := active\<rparr>)))"

definition read_sub ::
  "nat \<Rightarrow> ('n, 'e) splitter \<Rightarrow> ('n chunk, 'e) read_result \<times> ('n, 'e) splitter" where
  "read_sub i s =
     (if i < length (table s)
      then (case read_from (table s ! i) of
              (r, sub) \<Rightarrow> (r, s\<lparr>table := (table s)[i := sub]\<rparr>))
      else (Waiting, s))"

text \<open>Modelled from the spec: the reader of sub-stream \<open>i\<close> discards it.\<close>

definition cancel_sub :: "nat \<Rightarrow> ('n, 'e) splitter \<Rightarrow> ('n, 'e) splitter" where
  "cancel_sub i s =
     s\<lparr>table := (table s)[i := (table s ! i)\<lparr>buffered := [], status := cancelled\<rparr>]\<rparr>"

text \<open>
  A splitter with two sub-streams, both handed out: the first complete and read to its
  end, the second still open and not yet read. Its buffers hold two chunks at most.
\<close>

definition example_splitter :: "(int, string) splitter" where
  "example_splitter =
     snd (read_sub 0 (snd (read_main (snd (read_main
       (snd (accept \<lparr>kind = NULL_VALUE, path = Some [Key ''b'', Index 0]\<rparr>
         (snd (accept \<lparr>kind = ARRAY_START, path = Some [Key ''b'']\<rparr>
           (snd (accept \<lparr>kind = NUMBER_VALUE 1, path = Some [Key ''a'']\<rparr>
             (new_splitter 2))))))))))))"

section \<open>The tokenizer\<close>

text \<open>
  Modelled from the spec: the tokenizer (\<open>JsonParser\<close>), whose source is not among the
  files at hand. Section 4.1 of the specification: a stack of open containers and a small
  scanner state (inside a string, escape pending, accumulation of a numeric literal,
  matching of the keywords \<^verbatim>\<open>true\<close>, \<^verbatim>\<open>false\<close>, \<^verbatim>\<open>null\<close>), carried from one text fragment to
  the next; a \<open>ParseError\<close> with the offset in the whole input and a reason.
\<close>

datatype parse_error = ParseError nat string

datatype container = IN_OBJECT | IN_ARRAY

datatype expecting = A_VALUE | A_VALUE_OR_END | A_KEY | A_KEY_OR_END | A_COLON | A_COMMA_OR_END

datatype scanner =
    BETWEEN
  | IN_STRING string_role
  | ESCAPE_PENDING string_role
  | UNICODE_ESCAPE string_role string
  | IN_NUMBER string
  | IN_KEYWORD string

record tokenizer =
  containers :: "container list"
  expecting :: expecting
  scanner :: scanner
  position :: nat

definition new_tokenizer :: tokenizer where
  "new_tokenizer = \<lparr>containers = [], expecting = A_VALUE, scanner = BETWEEN, position = 0\<rparr>"

text \<open>
  Modelled from the spec: a value is complete. Inside a container a comma or the end of
  the container follows; at top level a further value may follow at once (several
  concatenated top-level values).
\<close>

definition value_done :: "tokenizer \<Rightarrow> tokenizer" where
  "value_done t =
     t\<lparr>expecting := (if containers t = [] then A_VALUE else A_COMMA_OR_END), scanner := BETWEEN\<rparr>"

definition wants_value :: "tokenizer \<Rightarrow> bool" where
  "wants_value t = (expecting t = A_VALUE \<or> expecting t = A_VALUE_OR_END)"

definition wants_key :: "tokenizer \<Rightarrow> bool" where
  "wants_key t = (expecting t = A_KEY \<or> expecting t = A_KEY_OR_END)"

definition failure :: "tokenizer \<Rightarrow> string \<Rightarrow> parse_error + 'a" where
  "failure t why = Inl (ParseError (position t) why)"

text \<open>Modelled from the spec: the syntax of a JSON number.\<close>

definition valid_number :: "string \<Rightarrow> bool" where
  "valid_number s =
     (let s1 = (if s \<noteq> [] \<and> hd s = CHR ''-'' then tl s else s);
          whole = takeWhile is_digit s1;
          r1 = dropWhile is_digit s1;
          fraction = (r1 \<noteq> [] \<and> hd r1 = CHR ''.'');
          r2 = (if fraction then dropWhile is_digit (tl r1) else r1);
          ex = tl r2;
          r3 = (if ex \<noteq> [] \<and> (hd ex = CHR ''+'' \<or> hd ex = CHR ''-'') then tl ex else ex)
      in whole \<noteq> [] \<and> (hd whole \<noteq> CHR ''0'' \<or> length whole = 1)
         \<and> (if fraction then takeWhile is_digit (tl r1) \<noteq> [] else True)
         \<and> (if r2 = [] then True
             else (hd r2 = CHR ''e'' \<or> hd r2 = CHR ''E'') \<and> r3 \<noteq> [] \<and> list_all is_digit r3))"

definition number_char :: "char \<Rightarrow> bool" where
  "number_char c =
     (is_digit c \<or> c = CHR ''-'' \<or> c = CHR ''+'' \<or> c = CHR ''.'' \<or> c = CHR ''e'' \<or> c = CHR ''E'')"

definition hex_digit :: "char \<Rightarrow> bool" where
  "hex_digit c =
     (is_digit c \<or> (97 \<le> (of_char c :: nat) \<and> (of_char c :: nat) \<le> 102)
      \<or> (65 \<le> (of_char c :: nat) \<and> (of_char c :: nat) \<le> 70))"

definition whitespace :: "char \<Rightarrow> bool" where
  "whitespace c = (c = CHR '' '' \<or> c = CHR 0x09 \<or> c = CHR 0x0A \<or> c = CHR 0x0D)"

text \<open>
  Modelled from the spec: one character outside of any token.
\<close>

definition between :: "char \<Rightarrow> tokenizer \<Rightarrow> parse_error + (tokenizer \<times> 'n json_chunk list)" where
  "between c t =
     (if whitespace c then Inr (t, [])
      else if c = CHR ''{'' then
        (if wants_value t
         then Inr (t\<lparr>containers := IN_OBJECT # containers t, expecting := A_KEY_OR_END\<rparr>,
                   [OBJECT_START])
         else failure t ''unexpected character'')
      else if c = CHR ''['' then
        (if wants_value t
         then Inr (t\<lparr>containers := IN_ARRAY # containers t, expecting := A_VALUE_OR_END\<rparr>,
                   [ARRAY_START])
         else failure t ''unexpected character'')
      else if c = CHR ''}'' then
        (if containers t \<noteq> [] \<and> hd (containers t) = IN_OBJECT
            \<and> (expecting t = A_KEY_OR_END \<or> expecting t = A_COMMA_OR_END)
         then Inr (value_done (t\<lparr>containers := tl (containers t)\<rparr>), [OBJECT_END])
         else failure t ''unexpected character'')
      else if c = CHR '']'' then
        (if containers t \<noteq> [] \<and> hd (containers t) = IN_ARRAY
            \<and> (expecting t = A_VALUE_OR_END \<or> expecting t = A_COMMA_OR_END)
         then Inr (value_done (t\<lparr>containers := tl (containers t)\<rparr>), [ARRAY_END])
         else failure t ''unexpected character'')
      else if c = CHR '','' then
        (if containers t \<noteq> [] \<and> expecting t = A_COMMA_OR_END
         then Inr (t\<lparr>expecting := (if hd (containers t) = IN_OBJECT then A_KEY else A_VALUE)\<rparr>, [])
         else failure t ''unexpected character'')
      else if c = CHR '':'' then
        (if expecting t = A_COLON then Inr (t\<lparr>expecting := A_VALUE\<rparr>, [])
         else failure t ''unexpected character'')
      else if c = CHR 0x22 then
        (if wants_key t then Inr (t\<lparr>scanner := IN_STRING KEY\<rparr>, [STRING_START KEY])
         else if wants_value t then Inr (t\<lparr>scanner := IN_STRING VALUE\<rparr>, [STRING_START VALUE])
         else failure t ''unexpected character'')
      else if is_digit c \<or> c = CHR ''-'' then
        (if wants_value t then Inr (t\<lparr>scanner := IN_NUMBER [c]\<rparr>, [])
         else failure t ''unexpected character'')
      else if c = CHR ''t'' \<or> c = CHR ''f'' \<or> c = CHR ''n'' then
        (if wants_value t then Inr (t\<lparr>scanner := IN_KEYWORD [c]\<rparr>, [])
         else failure t ''unexpected character'')
      else failure t ''unexpected character'')"

text \<open>Modelled from the spec: the end of a string; a key is followed by a colon.\<close>

definition string_done :: "string_role \<Rightarrow> tokenizer \<Rightarrow> tokenizer" where
  "string_done r t =
     (if r = KEY then t\<lparr>expecting := A_COLON, scanner := BETWEEN\<rparr> else value_done t)"

text \<open>Modelled from the spec: the character after a backslash.\<close>

definition escaped :: "char \<Rightarrow> char option" where
  "escaped c =
     (if c = CHR 0x22 \<or> c = CHR 0x5C \<or> c = CHR ''/'' then Some c
      else if c = CHR ''b'' then Some (CHR 0x08)
      else if c = CHR ''f'' then Some (CHR 0x0C)
      else if c = CHR ''n'' then Some (CHR 0x0A)
      else if c = CHR ''r'' then Some (CHR 0x0D)
      else if c = CHR ''t'' then Some (CHR 0x09)
      else None)"

text \<open>
  Modelled from the spec: one character of input. Every character of string content is
  one content event; the events of one fragment are joined afterwards (\<open>coalesce\<close>). A
  numeric literal is accumulated until a character that cannot continue it, which is
  then read as a character outside of any token. The parameters are the conversion of a
  numeric literal to a number and the character that stands for the code unit of a
  \<^verbatim>\<open>\u\<close> escape.
\<close>

definition lex_char ::
  "(string \<Rightarrow> 'n) \<Rightarrow> (string \<Rightarrow> char) \<Rightarrow> char \<Rightarrow> tokenizer
     \<Rightarrow> parse_error + (tokenizer \<times> 'n json_chunk list)" where
  "lex_char number_of unicode_of c t =
     (case (case scanner t of
        BETWEEN \<Rightarrow> between c t
      | IN_STRING r \<Rightarrow>
          if c = CHR 0x22 then Inr (string_done r t, [STRING_END r])
          else if c = CHR 0x5C then Inr (t\<lparr>scanner := ESCAPE_PENDING r\<rparr>, [])
          else if (of_char c :: nat) < 32 then failure t ''unexpected character''
          else Inr (t, [STRING_CHUNK r [c]])
      | ESCAPE_PENDING r \<Rightarrow>
          if c = CHR ''u'' then Inr (t\<lparr>scanner := UNICODE_ESCAPE r []\<rparr>, [])
          else (case escaped c of
                  Some d \<Rightarrow> Inr (t\<lparr>scanner := IN_STRING r\<rparr>, [STRING_CHUNK r [d]])
                | None \<Rightarrow> failure t ''invalid escape'')
      | UNICODE_ESCAPE r hs \<Rightarrow>
          if \<not> hex_digit c then failure t ''invalid escape''
          else if length hs = 3
          then Inr (t\<lparr>scanner := IN_STRING r\<rparr>, [STRING_CHUNK r [unicode_of (hs @ [c])]])
          else Inr (t\<lparr>scanner := UNICODE_ESCAPE r (hs @ [c])\<rparr>, [])
      | IN_NUMBER lit \<Rightarrow>
          if number_char c then Inr (t\<lparr>scanner := IN_NUMBER (lit @ [c])\<rparr>, [])
          else if \<not> valid_number lit then failure t ''invalid number''
          else (case between c (value_done t) of
                  Inl e \<Rightarrow> Inl e
                | Inr (t', out) \<Rightarrow> Inr (t', NUMBER_VALUE (number_of lit) # out))
      | IN_KEYWORD w \<Rightarrow>
          if w @ [c] = ''true'' then Inr (value_done t, [BOOLEAN_VALUE True])
          else if w @ [c] = ''false'' then Inr (value_done t, [BOOLEAN_VALUE False])
          else if w @ [c] = ''null'' then Inr (value_done t, [NULL_VALUE])
          else if w @ [c] = take (length w + 1) ''true'' \<or> w @ [c] = take (length w + 1) ''false''
                  \<or> w @ [c] = take (length w + 1) ''null''
          then Inr (t\<lparr>scanner := IN_KEYWORD (w @ [c])\<rparr>, [])
          else failure t ''unexpected character'') of
        Inl e \<Rightarrow> Inl e
      | Inr (t', out) \<Rightarrow> Inr (t'\<lparr>position := position t' + 1\<rparr>, out))"

text \<open>Modelled from the spec: the characters of a text, one after the other.\<close>

fun lex_string ::
  "(string \<Rightarrow> 'n) \<Rightarrow> (string \<Rightarrow> char) \<Rightarrow> string \<Rightarrow> tokenizer
     \<Rightarrow> parse_error + (tokenizer \<times> 'n json_chunk list)" where
  "lex_string number_of unicode_of [] t = Inr (t, [])"
| "lex_string number_of unicode_of (c # cs) t =
     (case lex_char number_of unicode_of c t of
        Inl e \<Rightarrow> Inl e
      | Inr (t', out) \<Rightarrow>
          (case lex_string number_of unicode_of cs t' of
             Inl e \<Rightarrow> Inl e
           | Inr (t'', out') \<Rightarrow> Inr (t'', out @ out')))"

text \<open>
  Modelled from the spec: the end of the input. A pending numeric literal is complete; a
  string or a keyword that is not complete is an error.
\<close>

definition lex_end ::
  "(string \<Rightarrow> 'n) \<Rightarrow> tokenizer \<Rightarrow> parse_error + 'n json_chunk list" where
  "lex_end number_of t =
     (case scanner t of
        BETWEEN \<Rightarrow> Inr []
      | IN_NUMBER lit \<Rightarrow>
          if valid_number lit then Inr [NUMBER_VALUE (number_of lit)]
          else failure t ''invalid number''
      | IN_KEYWORD w \<Rightarrow> failure t ''unexpected end of input''
      | _ \<Rightarrow> failure t ''unterminated string'')"

text \<open>
  Modelled from the spec: the content events of one string that follow each other are
  delivered as one chunk.
\<close>

fun coalesce :: "'n json_chunk list \<Rightarrow> 'n json_chunk list" where
  "coalesce (STRING_CHUNK r s # STRING_CHUNK r' t # ks) =
     (if r = r' then coalesce (STRING_CHUNK r (s @ t) # ks)
      else STRING_CHUNK r s # coalesce (STRING_CHUNK r' t # ks))"
| "coalesce (k # ks) = k # coalesce ks"
| "coalesce [] = []"



text \<open>
  The chunks with every string content chunk cut into chunks of one character; a content
  chunk with no text is kept.
\<close>

fun explode_kind :: "'n json_chunk \<Rightarrow> 'n json_chunk list" where
  "explode_kind (STRING_CHUNK r t) =
     (if t = [] then [STRING_CHUNK r []] else map (\<lambda>c. STRING_CHUNK r [c]) t)"
| "explode_kind k = [k]"

definition explode_kinds :: "'n json_chunk list \<Rightarrow> 'n json_chunk list" where
  "explode_kinds ks = concat (map explode_kind ks)"


section \<open>The example document\<close>



section \<open>The path tracker\<close>

text \<open>
  Modelled from the spec: the path tracker (\<open>JsonPathDetector\<close>), whose source is not
  among the files at hand. Section 4.2 of the specification: a stack that mirrors the
  open containers, with, for an object, the key of the property that is being read and
  the key that is being assembled, and, for an array, the index of the next item. The
  innermost container is the head of the stack.
\<close>

datatype path_frame = OBJECT_FRAME "string option" string | ARRAY_FRAME nat

fun segment :: "path_frame \<Rightarrow> json_path" where
  "segment (OBJECT_FRAME (Some k) pending_key) = [Key k]"
| "segment (OBJECT_FRAME None pending_key) = []"
| "segment (ARRAY_FRAME i) = [Index i]"

definition path_of :: "path_frame list \<Rightarrow> json_path" where
  "path_of frames = concat (map segment (rev frames))"

text \<open>
  Modelled from the spec: a value of the innermost container is complete: the key of an
  object is forgotten, the index of an array is incremented.
\<close>

fun completed_value :: "path_frame list \<Rightarrow> path_frame list" where
  "completed_value [] = []"
| "completed_value (OBJECT_FRAME k pending_key # frames) = OBJECT_FRAME None [] # frames"
| "completed_value (ARRAY_FRAME i # frames) = ARRAY_FRAME (i + 1) # frames"

fun assemble_key :: "string \<Rightarrow> path_frame list \<Rightarrow> path_frame list" where
  "assemble_key t (OBJECT_FRAME k pending_key # frames) = OBJECT_FRAME k (pending_key @ t) # frames"
| "assemble_key t frames = frames"

fun start_key :: "path_frame list \<Rightarrow> path_frame list" where
  "start_key (OBJECT_FRAME k pending_key # frames) = OBJECT_FRAME k [] # frames"
| "start_key frames = frames"

fun complete_key :: "path_frame list \<Rightarrow> path_frame list" where
  "complete_key (OBJECT_FRAME k pending_key # frames) = OBJECT_FRAME (Some pending_key) pending_key # frames"
| "complete_key frames = frames"

text \<open>
  Modelled from the spec: the tracker on one chunk. The chunk is passed on with the path
  of the place where it lives: a container's start and end chunks carry the path of the
  container, the chunks of a key carry the path of the object, and the completed key is
  part of the path of the chunks that follow until the value of the property is
  complete.
\<close>

fun track_chunk :: "'n json_chunk \<Rightarrow> path_frame list \<Rightarrow> path_frame list \<times> 'n chunk" where
  "track_chunk OBJECT_START frames =
     (OBJECT_FRAME None [] # frames, \<lparr>kind = OBJECT_START, path = Some (path_of frames)\<rparr>)"
| "track_chunk ARRAY_START frames =
     (ARRAY_FRAME 0 # frames, \<lparr>kind = ARRAY_START, path = Some (path_of frames)\<rparr>)"
| "track_chunk OBJECT_END frames =
     (completed_value (tl frames), \<lparr>kind = OBJECT_END, path = Some (path_of (tl frames))\<rparr>)"
| "track_chunk ARRAY_END frames =
     (completed_value (tl frames), \<lparr>kind = ARRAY_END, path = Some (path_of (tl frames))\<rparr>)"
| "track_chunk (STRING_START r) frames =
     (if r = KEY then start_key frames else frames,
      \<lparr>kind = STRING_START r, path = Some (path_of frames)\<rparr>)"
| "track_chunk (STRING_CHUNK r t) frames =
     (if r = KEY then assemble_key t frames else frames,
      \<lparr>kind = STRING_CHUNK r t, path = Some (path_of frames)\<rparr>)"
| "track_chunk (STRING_END r) frames =
     (if r = KEY then complete_key frames else completed_value frames,
      \<lparr>kind = STRING_END r, path = Some (path_of frames)\<rparr>)"
| "track_chunk (NUMBER_VALUE n) frames =
     (completed_value frames, \<lparr>kind = NUMBER_VALUE n, path = Some (path_of frames)\<rparr>)"
| "track_chunk (BOOLEAN_VALUE b) frames =
     (completed_value frames, \<lparr>kind = BOOLEAN_VALUE b, path = Some (path_of frames)\<rparr>)"
| "track_chunk NULL_VALUE frames =
     (completed_value frames, \<lparr>kind = NULL_VALUE, path = Some (path_of frames)\<rparr>)"

fun track_from :: "'n json_chunk list \<Rightarrow> path_frame list \<Rightarrow> path_frame list \<times> 'n chunk list" where
  "track_from [] frames = (frames, [])"
| "track_from (k # ks) frames =
     (case track_chunk k frames of
        (frames', c) \<Rightarrow>
          (case track_from ks frames' of (frames'', cs) \<Rightarrow> (frames'', c # cs)))"


section \<open>The path selector\<close>

text \<open>
  Modelled from the spec: the path selector (\<open>JsonPathSelector\<close>), whose source is not
  among the files at hand. Sections 3 and 4.3 of the specification: a pattern is a
  sequence of literal segments and wildcards and matches a path on the first segments of
  the path; a path shorter than the pattern does not match.
\<close>

datatype pattern_segment = LITERAL path_segment | WILDCARD

fun matches :: "pattern_segment list \<Rightarrow> json_path \<Rightarrow> bool" where
  "matches [] p = True"
| "matches (s # ss) [] = False"
| "matches (s # ss) (x # xs) = ((s = WILDCARD \<or> s = LITERAL x) \<and> matches ss xs)"

text \<open>
  Modelled from the spec: the selector on one chunk. Its state is the number of open
  boundaries of the matched subtree it is in (zero outside of any). Inside a matched
  subtree every chunk is forwarded; outside, a chunk is forwarded if its path matches,
  and dropped otherwise.
\<close>

definition select_chunk :: "pattern_segment list \<Rightarrow> 'n chunk \<Rightarrow> nat \<Rightarrow> nat \<times> 'n chunk list" where
  "select_chunk pattern c depth =
     (if 0 < depth then (depth_after (kind c) depth, [c])
      else if (case path c of Some p \<Rightarrow> matches pattern p | None \<Rightarrow> False)
      then (depth_after (kind c) 0, [c])
      else (0, []))"

fun select_from :: "pattern_segment list \<Rightarrow> 'n chunk list \<Rightarrow> nat \<Rightarrow> nat \<times> 'n chunk list" where
  "select_from pattern [] depth = (depth, [])"
| "select_from pattern (c # cs) depth =
     (case select_chunk pattern c depth of
        (depth', out) \<Rightarrow>
          (case select_from pattern cs depth' of (depth'', out') \<Rightarrow> (depth'', out @ out')))"


text \<open>The chunks with paths, with every string content chunk cut into characters.\<close>

definition explode_chunk :: "'n chunk \<Rightarrow> 'n chunk list" where
  "explode_chunk c = map (\<lambda>k. \<lparr>kind = k, path = path c\<rparr>) (explode_kind (kind c))"

definition explode_chunks :: "'n chunk list \<Rightarrow> 'n chunk list" where
  "explode_chunks cs = concat (map explode_chunk cs)"

text \<open>
  The splitter after it has read the chunks \<open>cs\<close> one after the other and stored
  them, with no read of a sub-stream in between. The theorems below use it as the
  reference for what the sub-streams contain: what a reader has received from a
  sub-stream, followed by what waits in the buffer, is the buffer in this splitter.
\<close>

fun feed :: "'n chunk list \<Rightarrow> ('n, 'e) splitter \<Rightarrow> ('n, 'e) splitter" where
  "feed [] s = s"
| "feed (c # cs) s = feed cs (store c s)"


section \<open>The pipeline\<close>


text \<open>The pattern of the example: any first segment, then the key \<open>results\<close>.\<close>

definition results_pattern :: "pattern_segment list" where
  "results_pattern = [WILDCARD, LITERAL (Key ''results'')]"

text \<open>The fragments of the document in the tests of the splitter.\<close>

definition test_fragments :: "string list" where
  \<open>test_fragments =
     [''{"apples":{"results":['', ''"apple1",'', ''"apple2"'',
      '']},"cherries":{"results":{'', ''"1":"cherry1",'', ''"2":"cherry2"'', ''}}}'']\<close>





section \<open>The pipeline and its consumer\<close>

text \<open>
  Modelled from the spec: the states of the tokenizer, of the path tracker and of the
  selector. Each stage owns its state (section 5).
\<close>

record stages =
  tokenizer_state :: tokenizer
  tracker_frames :: "path_frame list"
  selector_depth :: nat

definition new_stages :: stages where
  "new_stages = \<lparr>tokenizer_state = new_tokenizer, tracker_frames = [], selector_depth = 0\<rparr>"

text \<open>
  Modelled from the spec: one text fragment passes the tokenizer, the path tracker and
  the selector. The result is the new state of the three stages with the chunks that
  the selector forwards, or the parse error of the tokenizer.
\<close>

definition through_stages ::
  "(string \<Rightarrow> 'n) \<Rightarrow> (string \<Rightarrow> char) \<Rightarrow> pattern_segment list \<Rightarrow> string \<Rightarrow> stages
     \<Rightarrow> parse_error + (stages \<times> 'n chunk list)" where
  "through_stages number_of unicode_of pattern fragment st =
     (case lex_string number_of unicode_of fragment (tokenizer_state st) of
        Inl e \<Rightarrow> Inl e
      | Inr (t, out) \<Rightarrow>
          (case track_from (coalesce out) (tracker_frames st) of
             (fr, tracked) \<Rightarrow>
               (case select_from pattern tracked (selector_depth st) of
                  (d, chosen) \<Rightarrow>
                    Inr (\<lparr>tokenizer_state = t, tracker_frames = fr, selector_depth = d\<rparr>,
                         chosen))))"

text \<open>
  Modelled from the spec: the end of the input passes the three stages: the chunks that
  the tokenizer completes at the end of the input, with their paths, as far as the
  selector forwards them, or the parse error of the tokenizer.
\<close>

definition at_end_of_input ::
  "(string \<Rightarrow> 'n) \<Rightarrow> pattern_segment list \<Rightarrow> stages \<Rightarrow> parse_error + 'n chunk list" where
  "at_end_of_input number_of pattern st =
     (case lex_end number_of (tokenizer_state st) of
        Inl e \<Rightarrow> Inl e
      | Inr out \<Rightarrow>
          Inr (snd (select_from pattern (snd (track_from out (tracker_frames st)))
                 (selector_depth st))))"

text \<open>
  Modelled from the spec: the pipeline from the source of the text fragments to the
  splitter, with the bounded hand-offs of section 5. The stages before the splitter are
  taken together as one producer with a state of its own, so that the model holds for
  every producer: \<open>produce\<close> is what the producer makes of one fragment and \<open>finish\<close>
  what it delivers at the end of the input. \<open>unread\<close> are the fragments still with the
  source, \<open>consumed\<close> counts the fragments taken from the source, \<open>in_flight\<close> are the
  chunks made from the fragments taken so far that the splitter has not read yet, and
  \<open>input_done\<close> says that the end of the input has passed the producer. The producer is
  not asked for more while a chunk is in flight: no fragment is taken from the source
  before the splitter has read every chunk of the fragments before.
\<close>

record ('n, 'st, 'e) pipeline =
  unread :: "string list"
  upstream :: 'st
  in_flight :: "'n chunk list"
  consumed :: nat
  input_done :: bool
  fan_out :: "('n, 'e) splitter"

definition new_pipeline :: "'st \<Rightarrow> string list \<Rightarrow> nat \<Rightarrow> ('n, 'st, 'e) pipeline" where
  "new_pipeline st fragments limit =
     \<lparr>unread = fragments, upstream = st, in_flight = [], consumed = 0, input_done = False,
      fan_out = new_splitter limit\<rparr>"

text \<open>
  Modelled from the spec: the pipeline moves by one step, if it can. The first chunk in
  flight is offered to the splitter; if the splitter stalls, nothing moves. With no
  chunk in flight the producer takes the next fragment from the source; after the last
  fragment it delivers what the end of the input completes, and when that has been read
  the splitter is told that the upstream has ended. A failure of the producer is
  delivered to the splitter at once (abort propagation) and ends all movement.
\<close>

definition advance ::
  "(string \<Rightarrow> 'st \<Rightarrow> 'e + ('st \<times> 'n chunk list)) \<Rightarrow> ('st \<Rightarrow> 'e + 'n chunk list)
     \<Rightarrow> ('n, 'st, 'e) pipeline \<Rightarrow> ('n, 'st, 'e) pipeline" where
  "advance produce finish p =
     (case in_flight p of
        c # cs \<Rightarrow>
          (case accept c (fan_out p) of
             (taken, s) \<Rightarrow> if taken then p\<lparr>in_flight := cs, fan_out := s\<rparr> else p)
      | [] \<Rightarrow>
          if main_failure (fan_out p) \<noteq> None then p
          else if input_done p then p\<lparr>fan_out := upstream_end (fan_out p)\<rparr>
          else
            (case unread p of
               fragment # fragments \<Rightarrow>
                 (case produce fragment (upstream p) of
                    Inl e \<Rightarrow>
                      p\<lparr>unread := fragments, consumed := consumed p + 1,
                        fan_out := upstream_abort e (fan_out p)\<rparr>
                  | Inr (st, cs) \<Rightarrow>
                      p\<lparr>unread := fragments, consumed := consumed p + 1, upstream := st,
                        in_flight := cs\<rparr>)
             | [] \<Rightarrow>
                 (case finish (upstream p) of
                    Inl e \<Rightarrow> p\<lparr>input_done := True, fan_out := upstream_abort e (fan_out p)\<rparr>
                  | Inr cs \<Rightarrow> p\<lparr>input_done := True, in_flight := cs\<rparr>)))"

text \<open>
  Modelled from the spec: what happens, in any order: the pipeline moves by one step,
  the consumer reads the main sequence, or the consumer reads sub-stream \<open>i\<close>. The
  specification lets the sub-streams be read in emission order or out of order, while
  the input is still arriving or afterwards. \<open>react\<close> gives what the consumer observes,
  read by read, and the pipeline afterwards.
\<close>

datatype event = ADVANCE | READ_MAIN | READ_SUB nat

datatype ('n, 'e) observation =
    MAIN "(nat \<times> json_path option, 'e) read_result"
  | SUB nat "('n chunk, 'e) read_result"

fun react ::
  "(string \<Rightarrow> 'st \<Rightarrow> 'e + ('st \<times> 'n chunk list)) \<Rightarrow> ('st \<Rightarrow> 'e + 'n chunk list)
     \<Rightarrow> event list \<Rightarrow> ('n, 'st, 'e) pipeline
     \<Rightarrow> ('n, 'e) observation list \<times> ('n, 'st, 'e) pipeline" where
  "react produce finish [] p = ([], p)"
| "react produce finish (ADVANCE # events) p =
     react produce finish events (advance produce finish p)"
| "react produce finish (READ_MAIN # events) p =
     (case read_main (fan_out p) of
        (r, s) \<Rightarrow>
          (case react produce finish events (p\<lparr>fan_out := s\<rparr>) of
             (obs, p') \<Rightarrow> (MAIN r # obs, p')))"
| "react produce finish (READ_SUB i # events) p =
     (case read_sub i (fan_out p) of
        (r, s) \<Rightarrow>
          (case react produce finish events (p\<lparr>fan_out := s\<rparr>) of
             (obs, p') \<Rightarrow> (SUB i r # obs, p')))"

text \<open>The chunks that the reader of sub-stream \<open>i\<close> has received.\<close>

fun received :: "nat \<Rightarrow> ('n, 'e) observation list \<Rightarrow> 'n chunk list" where
  "received i [] = []"
| "received i (SUB j (Item c) # obs) = (if j = i then c # received i obs else received i obs)"
| "received i (ob # obs) = received i obs"

text \<open>The descriptors that the reader of the main sequence has received.\<close>

fun descriptors :: "('n, 'e) observation list \<Rightarrow> (nat \<times> json_path option) list" where
  "descriptors [] = []"
| "descriptors (MAIN (Item d) # obs) = d # descriptors obs"
| "descriptors (ob # obs) = descriptors obs"

text \<open>A read of a sub-stream, as opposed to a step of the pipeline or a read of the main sequence.\<close>

fun is_sub_read :: "event \<Rightarrow> bool" where
  "is_sub_read (READ_SUB i) = True"
| "is_sub_read e = False"



text \<open>
  The chunks that the producer makes of the fragments \<open>fs\<close> alone, up to its first
  failure.
\<close>

fun produced ::
  "(string \<Rightarrow> 'st \<Rightarrow> 'e + ('st \<times> 'n chunk list)) \<Rightarrow> string list \<Rightarrow> 'st \<Rightarrow> 'n chunk list" where
  "produced produce [] st = []"
| "produced produce (fragment # fragments) st =
     (case produce fragment st of
        Inl e \<Rightarrow> []
      | Inr (st', cs) \<Rightarrow> cs @ produced produce fragments st')"

text \<open>A buffer of the splitter holds more chunks than \<open>limit\<close>.\<close>

definition overfull :: "nat \<Rightarrow> ('n, 'e) splitter \<Rightarrow> bool" where
  "overfull limit s = list_ex (\<lambda>sub. limit < length (buffered sub)) (table s)"


section \<open>Basic facts\<close>

lemma run_append:
  "run f (xs @ ys) st =
     (case run f xs st of (st', out) \<Rightarrow>
        (case run f ys st' of (st'', out') \<Rightarrow> (st'', out @ out')))"
  by (induction xs arbitrary: st) (auto split: prod.splits)

lemma transform_quiet: "quiet c \<Longrightarrow> snd (transform f c st) = []"
  by (cases st) (auto simp: quiet_def split: json_chunk.splits)

lemma run_quiet: "list_all quiet cs \<Longrightarrow> snd (run f cs st) = []"
proof (induction cs arbitrary: st)
  case Nil then show ?case by simp
next
  case (Cons c cs)
  obtain st' out where t: "transform f c st = (st', out)" by (cases "transform f c st")
  obtain st'' out' where r: "run f cs st' = (st'', out')" by (cases "run f cs st'")
  from Cons.prems have "quiet c" "list_all quiet cs" by simp_all
  with t r Cons.IH [of st'] transform_quiet [of c f st] have "out = []" "out' = []" by simp_all
  with t r show ?case by (simp del: transform.simps)
qed

lemma set_value_root_path:
  "set_value v (set_root_path p (set_value w st)) = set_root_path p (set_value v st)"
  by (cases st) simp_all

lemma run_key_chunks:
  "run f (map (\<lambda>(q, t). \<lparr>kind = STRING_CHUNK KEY t, path = q\<rparr>) ts) (OBJECT_PROPERTY pr ps k v par)
     = (OBJECT_PROPERTY pr ps (k @ concat (map snd ts)) v par, [])"
  by (induction ts arbitrary: k) (auto)

lemma run_key_run:
  "run f (string_run KEY p ts p') (OBJECT_PROPERTY pr ps k v par)
     = (OBJECT_PROPERTY pr ps (k @ concat (map snd ts)) v par, [])"
  by (simp add: string_run_def run_append run_key_chunks)

lemma run_value_chunks:
  "run f (map (\<lambda>(q, t). \<lparr>kind = STRING_CHUNK VALUE t, path = q\<rparr>) ts)
       (set_value (Some (JString s)) st)
     = (set_value (Some (JString (s @ concat (map snd ts)))) st, [])"
proof (induction ts arbitrary: s)
  case Nil then show ?case by simp
next
  case (Cons a ts)
  obtain q t where a: "a = (q, t)" by (cases a)
  have "get_value (set_value (Some (JString s)) st) = Some (JString s)" by (cases st) simp_all
  moreover have "set_value w (set_value w' st) = set_value w st" for w w' by (cases st) simp_all
  ultimately show ?case using Cons.IH [of "s @ t"] by (simp add: a)
qed

lemma run_value_chunks_root_path:
  "run f (map (\<lambda>(q, t). \<lparr>kind = STRING_CHUNK VALUE t, path = q\<rparr>) ts)
       (set_root_path p (set_value (Some (JString s)) st))
     = (set_root_path p (set_value (Some (JString (s @ concat (map snd ts)))) st), [])"
proof -
  have "set_root_path p (set_value w st) = set_value w (set_root_path p st)" for w
    by (cases st) simp_all
  then show ?thesis by (simp add: run_value_chunks)
qed


lemma strict_prefix_snoc: "strict_prefix q (xs @ [x]) \<longleftrightarrow> prefix q xs"
  by (auto simp: strict_prefix_def prefix_snoc)

lemma strict_prefix_bracket:
  "strict_prefix q (x # xs @ [y]) \<longleftrightarrow> q = [] \<or> (\<exists>q'. q = x # q' \<and> prefix q' xs)"
  by (cases q) (auto simp: strict_prefix_snoc [symmetric] strict_prefix_def)

lemma snd_run_Cons:
  "snd (run f (c # cs) st) = snd (transform f c st) @ snd (run f cs (fst (transform f c st)))"
  by (simp del: transform.simps split: prod.splits)

lemma snd_run_append:
  "snd (run f (xs @ ys) st) = snd (run f xs st) @ snd (run f ys (fst (run f xs st)))"
  by (simp add: run_append split: prod.splits)

lemma fst_run_append:
  "fst (run f (xs @ ys) st) = fst (run f ys (fst (run f xs st)))"
  by (simp add: run_append split: prod.splits)

lemma prefix_string_run_quiet:
  assumes "strict_prefix q (string_run VALUE p ts p')"
  shows "list_all quiet q"
proof -
  from assms have "prefix q (\<lparr>kind = STRING_START VALUE, path = p\<rparr>
      # map (\<lambda>(q, t). \<lparr>kind = STRING_CHUNK VALUE t, path = q\<rparr>) ts)"
    unfolding string_run_def using strict_prefix_snoc [of q "_ # _"] by simp
  then have "set q \<subseteq> set (\<lparr>kind = STRING_START VALUE, path = p\<rparr>
      # map (\<lambda>(q, t). \<lparr>kind = STRING_CHUNK VALUE t, path = q\<rparr>) ts)"
    by (rule set_mono_prefix)
  then show ?thesis by (auto simp: list_all_iff quiet_def)
qed

lemma key_run_quiet: "list_all quiet (string_run KEY p ts p' :: 'n chunk list)"
  by (auto simp: list_all_iff quiet_def string_run_def)

lemma prefix_quiet: "prefix q cs \<Longrightarrow> list_all quiet cs \<Longrightarrow> list_all quiet q"
  using set_mono_prefix [of q cs] by (auto simp: list_all_iff)

lemma prefix_append_cases:
  assumes "prefix q (c @ cs)"
  shows "strict_prefix q c \<or> (\<exists>q'. q = c @ q' \<and> prefix q' cs)"
proof (cases "q = c")
  case True
  then have "q = c @ [] \<and> prefix [] cs" by simp
  then show ?thesis by blast
next
  case False
  with assms show ?thesis by (auto simp: prefix_append strict_prefix_def)
qed

lemma array_case:
  assumes items: "\<And>a par. run f cs (ARRAY_ITEM a None par) = (ARRAY_ITEM (a @ vs) None par, [])"
    and silent: "\<And>q a par. prefix q cs \<Longrightarrow> snd (run f q (ARRAY_ITEM a None par)) = []"
  shows "run f (\<lparr>kind = ARRAY_START, path = p\<rparr> # cs @ [\<lparr>kind = ARRAY_END, path = p'\<rparr>]) st
           = handleValueEnd (set_root_path p (set_value (Some (JArray vs)) st))"
    and "strict_prefix q (\<lparr>kind = ARRAY_START, path = p\<rparr> # cs @ [\<lparr>kind = ARRAY_END, path = p'\<rparr>])
           \<Longrightarrow> snd (run f q st) = []"
proof -
  show "run f (\<lparr>kind = ARRAY_START, path = p\<rparr> # cs @ [\<lparr>kind = ARRAY_END, path = p'\<rparr>]) st
           = handleValueEnd (set_root_path p (set_value (Some (JArray vs)) st))"
    by (simp add: run_append items set_value_root_path split: prod.splits)
next
  assume "strict_prefix q (\<lparr>kind = ARRAY_START, path = p\<rparr> # cs @ [\<lparr>kind = ARRAY_END, path = p'\<rparr>])"
  then consider "q = []" | q' where "q = \<lparr>kind = ARRAY_START, path = p\<rparr> # q'" "prefix q' cs"
    by (auto simp: strict_prefix_bracket)
  then show "snd (run f q st) = []"
  proof cases
    case 1 then show ?thesis by simp
  next
    case 2 then show ?thesis using silent [of q'] by (simp split: prod.splits)
  qed
qed

lemma object_case:
  assumes members: "\<And>pr ps par. run f cs (OBJECT_PROPERTY pr ps [] None par)
        = (OBJECT_PROPERTY (fst (build_object (pr, ps) ms)) (snd (build_object (pr, ps) ms)) [] None par, [])"
    and silent: "\<And>q pr ps par. prefix q cs \<Longrightarrow> snd (run f q (OBJECT_PROPERTY pr ps [] None par)) = []"
  shows "run f (\<lparr>kind = OBJECT_START, path = p\<rparr> # cs @ [\<lparr>kind = OBJECT_END, path = p'\<rparr>]) st
           = handleValueEnd (set_root_path p
               (set_value (Some (object_value (build_object (ObjectPrototype, []) ms))) st))"
    and "strict_prefix q (\<lparr>kind = OBJECT_START, path = p\<rparr> # cs @ [\<lparr>kind = OBJECT_END, path = p'\<rparr>])
           \<Longrightarrow> snd (run f q st) = []"
proof -
  show "run f (\<lparr>kind = OBJECT_START, path = p\<rparr> # cs @ [\<lparr>kind = OBJECT_END, path = p'\<rparr>]) st
           = handleValueEnd (set_root_path p
               (set_value (Some (object_value (build_object (ObjectPrototype, []) ms))) st))"
    by (simp add: run_append members set_value_root_path object_value_def split: prod.splits)
next
  assume "strict_prefix q (\<lparr>kind = OBJECT_START, path = p\<rparr> # cs @ [\<lparr>kind = OBJECT_END, path = p'\<rparr>])"
  then consider "q = []" | q' where "q = \<lparr>kind = OBJECT_START, path = p\<rparr> # q'" "prefix q' cs"
    by (auto simp: strict_prefix_bracket)
  then show "snd (run f q st) = []"
  proof cases
    case 1 then show ?thesis by simp
  next
    case 2 then show ?thesis using silent [of q'] by (simp split: prod.splits)
  qed
qed

lemma items_case:
  assumes ne: "c \<noteq> []"
    and val: "\<And>st. run f c st = handleValueEnd (set_root_path (path (hd c)) (set_value (Some v) st))"
    and vsilent: "\<And>q st. strict_prefix q c \<Longrightarrow> snd (run f q st) = []"
    and items: "\<And>a par. run f cs (ARRAY_ITEM a None par) = (ARRAY_ITEM (a @ vs) None par, [])"
    and silent: "\<And>q a par. prefix q cs \<Longrightarrow> snd (run f q (ARRAY_ITEM a None par)) = []"
  shows "run f (c @ cs) (ARRAY_ITEM a None par) = (ARRAY_ITEM (a @ v # vs) None par, [])"
    and "prefix q (c @ cs) \<Longrightarrow> snd (run f q (ARRAY_ITEM a None par)) = []"
proof -
  have one: "run f c (ARRAY_ITEM a None par) = (ARRAY_ITEM (a @ [v]) None par, [])"
    by (simp add: val)
  show "run f (c @ cs) (ARRAY_ITEM a None par) = (ARRAY_ITEM (a @ v # vs) None par, [])"
    by (simp add: run_append one items)
  assume "prefix q (c @ cs)"
  then consider "strict_prefix q c" | q' where "q = c @ q'" "prefix q' cs"
    using prefix_append_cases by blast
  then show "snd (run f q (ARRAY_ITEM a None par)) = []"
  proof cases
    case 1 then show ?thesis by (rule vsilent)
  next
    case 2 then show ?thesis using silent [of q'] by (simp add: snd_run_append one)
  qed
qed

lemma members_case:
  assumes ne: "c \<noteq> []"
    and val: "\<And>st. run f c st = handleValueEnd (set_root_path (path (hd c)) (set_value (Some v) st))"
    and vsilent: "\<And>q st. strict_prefix q c \<Longrightarrow> snd (run f q st) = []"
    and members: "\<And>pr ps par. run f cs (OBJECT_PROPERTY pr ps [] None par)
        = (OBJECT_PROPERTY (fst (build_object (pr, ps) ms)) (snd (build_object (pr, ps) ms)) [] None par, [])"
    and silent: "\<And>q pr ps par. prefix q cs \<Longrightarrow> snd (run f q (OBJECT_PROPERTY pr ps [] None par)) = []"
  shows "run f (string_run KEY p ts p' @ c @ cs) (OBJECT_PROPERTY pr ps [] None par)
      = (OBJECT_PROPERTY (fst (build_object (pr, ps) ((concat (map snd ts), v) # ms)))
           (snd (build_object (pr, ps) ((concat (map snd ts), v) # ms))) [] None par, [])"
    and "prefix q (string_run KEY p ts p' @ c @ cs)
      \<Longrightarrow> snd (run f q (OBJECT_PROPERTY pr ps [] None par)) = []"
proof -
  let ?k = "concat (map snd ts)"
  let ?ob = "obj_assign ?k v (pr, ps)"
  have key: "run f (string_run KEY p ts p') (OBJECT_PROPERTY pr ps [] None par)
      = (OBJECT_PROPERTY pr ps ?k None par, [])"
    by (simp add: run_key_run)
  have one: "run f c (OBJECT_PROPERTY pr ps ?k None par)
      = (OBJECT_PROPERTY (fst ?ob) (snd ?ob) [] None par, [])"
    by (simp add: val split: prod.splits)
  have build: "build_object (pr, ps) ((?k, v) # ms) = build_object (fst ?ob, snd ?ob) ms"
    by (simp add: build_object_def)
  show "run f (string_run KEY p ts p' @ c @ cs) (OBJECT_PROPERTY pr ps [] None par)
      = (OBJECT_PROPERTY (fst (build_object (pr, ps) ((?k, v) # ms)))
           (snd (build_object (pr, ps) ((?k, v) # ms))) [] None par, [])"
    unfolding build by (simp add: run_append key one members del: prod.collapse)
  assume "prefix q (string_run KEY p ts p' @ c @ cs)"
  then have "strict_prefix q (string_run KEY p ts p')
      \<or> (\<exists>q1. q = string_run KEY p ts p' @ q1 \<and> prefix q1 (c @ cs))"
    by (rule prefix_append_cases)
  moreover have "strict_prefix q1 c \<or> (\<exists>q'. q1 = c @ q' \<and> prefix q' cs)"
    if "prefix q1 (c @ cs)" for q1
    using that by (rule prefix_append_cases)
  ultimately consider "prefix q (string_run KEY p ts p')"
    | q' where "q = string_run KEY p ts p' @ q'" "strict_prefix q' c"
    | q' where "q = string_run KEY p ts p' @ c @ q'" "prefix q' cs"
    unfolding strict_prefix_def by blast
  then show "snd (run f q (OBJECT_PROPERTY pr ps [] None par)) = []"
  proof cases
    case 1
    then have "list_all quiet q" using key_run_quiet by (rule prefix_quiet)
    then show ?thesis by (rule run_quiet)
  next
    case 2 then show ?thesis using vsilent [of q'] by (simp add: snd_run_append key)
  next
    case 3 then show ?thesis using silent [of q']
      by (simp add: snd_run_append fst_run_append key one)
  qed
qed

section \<open>The deserializer on a well-formed value\<close>

lemma string_run_value:
  "run f (string_run VALUE p ts p') st
     = handleValueEnd (set_root_path p (set_value (Some (JString (concat (map snd ts)))) st))"
  by (simp add: string_run_def run_append run_value_chunks_root_path split: prod.splits)

lemma strict_prefix_single: "strict_prefix q [c] \<longleftrightarrow> q = []"
  by (cases q) (auto simp: strict_prefix_def)

lemma wf_run:
  fixes f :: "'n json \<Rightarrow> string"
  shows "wf_value cs v \<Longrightarrow>
      cs \<noteq> []
      \<and> (\<forall>st. run f cs st = handleValueEnd (set_root_path (path (hd cs)) (set_value (Some v) st)))
      \<and> (\<forall>q st. strict_prefix q cs \<longrightarrow> snd (run f q st) = [])"
    and "wf_items cs2 vs \<Longrightarrow>
      (\<forall>a par. run f cs2 (ARRAY_ITEM a None par) = (ARRAY_ITEM (a @ vs) None par, []))
      \<and> (\<forall>q a par. prefix q cs2 \<longrightarrow> snd (run f q (ARRAY_ITEM a None par)) = [])"
    and "wf_members cs3 ms \<Longrightarrow>
      (\<forall>pr ps par. run f cs3 (OBJECT_PROPERTY pr ps [] None par)
         = (OBJECT_PROPERTY (fst (build_object (pr, ps) ms)) (snd (build_object (pr, ps) ms))
              [] None par, []))
      \<and> (\<forall>q pr ps par. prefix q cs3 \<longrightarrow> snd (run f q (OBJECT_PROPERTY pr ps [] None par)) = [])"
proof (induction rule: wf_value_wf_items_wf_members.inducts)
  case (wf_number n p)
  show ?case by (simp add: strict_prefix_single)
next
  case (wf_boolean b p)
  show ?case by (simp add: strict_prefix_single)
next
  case (wf_null p)
  show ?case by (simp add: strict_prefix_single)
next
  case (wf_string p ts p')
  have "string_run VALUE p ts p' \<noteq> ([] :: 'n chunk list)"
    and "path (hd (string_run VALUE p ts p' :: 'n chunk list)) = p"
    by (simp_all add: string_run_def)
  then show ?case
    by (auto simp: string_run_value intro: run_quiet prefix_string_run_quiet)
next
  case (wf_array cs vs p p')
  then have items: "\<And>a par. run f cs (ARRAY_ITEM a None par) = (ARRAY_ITEM (a @ vs) None par, [])"
    and silent: "\<And>q a par. prefix q cs \<Longrightarrow> snd (run f q (ARRAY_ITEM a None par)) = []"
    by blast+
  show ?case
  proof (intro conjI allI impI)
    show "\<lparr>kind = ARRAY_START, path = p\<rparr> # cs @ [\<lparr>kind = ARRAY_END, path = p'\<rparr>] \<noteq> []"
      by simp
  next
    fix st
    show "run f (\<lparr>kind = ARRAY_START, path = p\<rparr> # cs @ [\<lparr>kind = ARRAY_END, path = p'\<rparr>]) st
        = handleValueEnd (set_root_path
            (path (hd (\<lparr>kind = ARRAY_START, path = p\<rparr> # cs @ [\<lparr>kind = ARRAY_END, path = p'\<rparr>])))
            (set_value (Some (JArray vs)) st))"
      using array_case(1) [of f cs vs p p' st, OF items silent] by simp
  next
    fix q st
    assume "strict_prefix q (\<lparr>kind = ARRAY_START, path = p\<rparr> # cs @ [\<lparr>kind = ARRAY_END, path = p'\<rparr>])"
    then show "snd (run f q st) = []"
      using array_case(2) [of f cs vs q p p' st, OF items silent] by blast
  qed
next
  case (wf_object cs ms p p')
  then have members: "\<And>pr ps par. run f cs (OBJECT_PROPERTY pr ps [] None par)
        = (OBJECT_PROPERTY (fst (build_object (pr, ps) ms)) (snd (build_object (pr, ps) ms)) [] None par, [])"
    and silent: "\<And>q pr ps par. prefix q cs \<Longrightarrow> snd (run f q (OBJECT_PROPERTY pr ps [] None par)) = []"
    by blast+
  show ?case
  proof (intro conjI allI impI)
    show "\<lparr>kind = OBJECT_START, path = p\<rparr> # cs @ [\<lparr>kind = OBJECT_END, path = p'\<rparr>] \<noteq> []"
      by simp
  next
    fix st
    show "run f (\<lparr>kind = OBJECT_START, path = p\<rparr> # cs @ [\<lparr>kind = OBJECT_END, path = p'\<rparr>]) st
        = handleValueEnd (set_root_path
            (path (hd (\<lparr>kind = OBJECT_START, path = p\<rparr> # cs @ [\<lparr>kind = OBJECT_END, path = p'\<rparr>])))
            (set_value (Some (object_value (build_object (ObjectPrototype, []) ms))) st))"
      using object_case(1) [of f cs ms p p' st, OF members silent] by simp
  next
    fix q st
    assume "strict_prefix q (\<lparr>kind = OBJECT_START, path = p\<rparr> # cs @ [\<lparr>kind = OBJECT_END, path = p'\<rparr>])"
    then show "snd (run f q st) = []"
      using object_case(2) [of f cs ms q p p' st, OF members silent] by blast
  qed
next
  case wf_items_nil
  show ?case by simp
next
  case (wf_items_cons c v cs vs)
  then have ne: "c \<noteq> []"
    and val: "\<And>st. run f c st = handleValueEnd (set_root_path (path (hd c)) (set_value (Some v) st))"
    and vsilent: "\<And>q st. strict_prefix q c \<Longrightarrow> snd (run f q st) = []"
    and items: "\<And>a par. run f cs (ARRAY_ITEM a None par) = (ARRAY_ITEM (a @ vs) None par, [])"
    and silent: "\<And>q a par. prefix q cs \<Longrightarrow> snd (run f q (ARRAY_ITEM a None par)) = []"
    by blast+
  show ?case
  proof (intro conjI allI impI)
    fix a par
    show "run f (c @ cs) (ARRAY_ITEM a None par) = (ARRAY_ITEM (a @ v # vs) None par, [])"
      by (rule items_case(1) [OF ne val vsilent items silent])
  next
    fix q a par
    assume "prefix q (c @ cs)"
    then show "snd (run f q (ARRAY_ITEM a None par)) = []"
      using items_case(2) [OF ne val vsilent items silent] by blast
  qed
next
  case wf_members_nil
  show ?case by (simp add: build_object_def)
next
  case (wf_members_cons c v cs ms p ts p')
  then have ne: "c \<noteq> []"
    and val: "\<And>st. run f c st = handleValueEnd (set_root_path (path (hd c)) (set_value (Some v) st))"
    and vsilent: "\<And>q st. strict_prefix q c \<Longrightarrow> snd (run f q st) = []"
    and members: "\<And>pr ps par. run f cs (OBJECT_PROPERTY pr ps [] None par)
        = (OBJECT_PROPERTY (fst (build_object (pr, ps) ms)) (snd (build_object (pr, ps) ms)) [] None par, [])"
    and silent: "\<And>q pr ps par. prefix q cs \<Longrightarrow> snd (run f q (OBJECT_PROPERTY pr ps [] None par)) = []"
    by blast+
  show ?case
  proof (intro conjI allI impI)
    fix pr ps par
    show "run f (string_run KEY p ts p' @ c @ cs) (OBJECT_PROPERTY pr ps [] None par)
      = (OBJECT_PROPERTY (fst (build_object (pr, ps) ((concat (map snd ts), v) # ms)))
           (snd (build_object (pr, ps) ((concat (map snd ts), v) # ms))) [] None par, [])"
      by (rule members_case(1) [OF ne val vsilent members silent])
  next
    fix q pr ps par
    assume "prefix q (string_run KEY p ts p' @ c @ cs)"
    then show "snd (run f q (OBJECT_PROPERTY pr ps [] None par)) = []"
      using members_case(2) [OF ne val vsilent members silent] by blast
  qed
qed

section \<open>Value completion\<close>

text \<open>
  The three states of \<open>handleValueEnd\<close>, lines 41 to 59: in \<open>ROOT\<close> the value is
  enqueued with the recorded path if there is one; in \<open>OBJECT_PROPERTY\<close> the assignment
  \<^verbatim>\<open>object[key] = value\<close> of line 49 is carried out if there is a value, and key and
  value are reset; in \<open>ARRAY_ITEM\<close> the value is pushed if there is one. The value in
  progress is reset in each state, and nothing is enqueued outside \<open>ROOT\<close>.
\<close>

lemma handleValueEnd_states:
  "handleValueEnd (ROOT (Some x) p) = (ROOT None p, [(x, p)])"
  "handleValueEnd (ROOT None p) = (ROOT None p, [])"
  "handleValueEnd (OBJECT_PROPERTY pr ps k (Some x) parent) =
     (OBJECT_PROPERTY (fst (obj_assign k x (pr, ps))) (snd (obj_assign k x (pr, ps)))
        [] None parent, [])"
  "handleValueEnd (OBJECT_PROPERTY pr ps k None parent) =
     (OBJECT_PROPERTY pr ps [] None parent, [])"
  "handleValueEnd (ARRAY_ITEM a (Some x) parent) = (ARRAY_ITEM (a @ [x]) None parent, [])"
  "handleValueEnd (ARRAY_ITEM a None parent) = (ARRAY_ITEM a None parent, [])"
  by (simp_all split: prod.splits)

text \<open>
  Claim C2. The claim says that in \<open>OBJECT_PROPERTY\<close> the completed value is stored
  under the accumulated key. The code misses the key \<^verbatim>\<open>__proto__\<close>: the object is a plain
  object, so the assignment of line 49 reaches the setter of \<^verbatim>\<open>Object.prototype\<close>, which
  ignores a number, and no property is created. With the value \<^verbatim>\<open>0\<close> completed under
  the key \<^verbatim>\<open>__proto__\<close> in an object without properties, \<open>handleValueEnd\<close> resets key and
  value and leaves the object without properties; the chunks of the JSON text
  \<^verbatim>\<open>{"__proto__":0}\<close> are deserialized to the object without properties.
\<close>

theorem proto_key_not_stored:
  "handleValueEnd (OBJECT_PROPERTY ObjectPrototype [] ''__proto__'' (Some (JNumber (0::int)))
       (ROOT (Some (JObject ObjectPrototype [])) (Some [])))
     = (OBJECT_PROPERTY ObjectPrototype [] [] None
          (ROOT (Some (JObject ObjectPrototype [])) (Some [])), [])
   \<and> deserialize (\<lambda>v. [])
       [\<lparr>kind = OBJECT_START, path = Some []\<rparr>,
        \<lparr>kind = STRING_START KEY, path = Some []\<rparr>,
        \<lparr>kind = STRING_CHUNK KEY ''__proto__'', path = Some []\<rparr>,
        \<lparr>kind = STRING_END KEY, path = Some []\<rparr>,
        \<lparr>kind = NUMBER_VALUE (0::int), path = Some [Key ''__proto__'']\<rparr>,
        \<lparr>kind = OBJECT_END, path = Some []\<rparr>]
     = [(JObject ObjectPrototype [], Some [])]"
  by (simp add: obj_assign_def deserialize_def initial_state_def)

section \<open>Root-level values\<close>

lemma run_root_value:
  assumes "wf_value cs v"
  shows "run f cs (ROOT None p0) = (ROOT None (path (hd cs)), [(v, path (hd cs))])"
  using wf_run(1) [OF assms, of f] by simp

lemma run_root_values:
  assumes "list_all (\<lambda>r. wf_value (fst r) (snd r)) rs"
  shows "snd (run f (concat (map fst rs)) (ROOT None p0)) = map (\<lambda>r. (snd r, path (hd (fst r)))) rs
    \<and> (\<exists>p1. fst (run f (concat (map fst rs)) (ROOT None p0)) = ROOT None p1)"
  using assms
proof (induction rs arbitrary: p0)
  case Nil
  then show ?case by simp
next
  case (Cons r rs)
  then have "wf_value (fst r) (snd r)" and rest: "list_all (\<lambda>r. wf_value (fst r) (snd r)) rs"
    by simp_all
  then have one: "run f (fst r) (ROOT None p0)
      = (ROOT None (path (hd (fst r))), [(snd r, path (hd (fst r)))])"
    by (simp add: run_root_value)
  show ?case using Cons.IH [OF rest, of "path (hd (fst r))"]
    by (simp add: snd_run_append fst_run_append one)
qed

lemma emission_returns_to_root:
  assumes "snd (transform f c st) \<noteq> []"
  shows "\<exists>x p. transform f c st = (ROOT None p, [(x, p)])"
proof -
  have h: "snd (handleValueEnd s) \<noteq> [] \<Longrightarrow> \<exists>x p. handleValueEnd s = (ROOT None p, [(x, p)])" for s :: "'a state"
    by (cases s) (auto split: option.splits prod.splits)
  from assms show ?thesis
    by (cases "kind c") (auto split: if_splits state.splits dest!: h)
qed

lemma wf_example_array:
  "wf_value [\<lparr>kind = ARRAY_START, path = Some [Key ''b'']\<rparr>,
             \<lparr>kind = BOOLEAN_VALUE True, path = Some [Key ''b'', Index 0]\<rparr>,
             \<lparr>kind = ARRAY_END, path = Some [Key ''b'']\<rparr>]
     (JArray [JBool True :: int json])"
proof -
  have "wf_value [\<lparr>kind = BOOLEAN_VALUE True, path = Some [Key ''b'', Index 0]\<rparr>]
      (JBool True :: int json)"
    by (rule wf_boolean)
  then have "wf_items ([\<lparr>kind = BOOLEAN_VALUE True, path = Some [Key ''b'', Index 0]\<rparr>] @ [])
      [JBool True :: int json]"
    using wf_items_nil by (rule wf_items_cons)
  from wf_array [OF this, where p = "Some [Key ''b'']" and p' = "Some [Key ''b'']"]
  show ?thesis by simp
qed

text \<open>
  Claim C1. Let the input be the chunk sequences of \<open>n\<close> complete root-level values,
  one after the other (\<open>rs\<close> pairs each sequence with the value it stands for). The
  deserializer enqueues exactly \<open>n\<close> results, one per value, in the order of the input;
  each result is the value of its sequence together with the path of the first chunk of
  that sequence.
\<close>

theorem deserialize_root_values:
  assumes "list_all (\<lambda>r. wf_value (fst r) (snd r)) rs"
  shows "deserialize f (concat (map fst rs)) = map (\<lambda>r. (snd r, path (hd (fst r)))) rs
    \<and> length (deserialize f (concat (map fst rs))) = length rs"
  using run_root_values [OF assms, of f "Some []"] by (simp add: deserialize_def initial_state_def)

theorem deserialize_root_values_witness:
  "deserialize (\<lambda>v. [])
     [\<lparr>kind = NUMBER_VALUE (1::int), path = Some [Key ''a'']\<rparr>,
      \<lparr>kind = ARRAY_START, path = Some [Key ''b'']\<rparr>,
      \<lparr>kind = BOOLEAN_VALUE True, path = Some [Key ''b'', Index 0]\<rparr>,
      \<lparr>kind = ARRAY_END, path = Some [Key ''b'']\<rparr>]
   = [(JNumber 1, Some [Key ''a'']), (JArray [JBool True], Some [Key ''b''])]"
proof -
  let ?r1 = "([\<lparr>kind = NUMBER_VALUE (1::int), path = Some [Key ''a'']\<rparr>], JNumber (1::int))"
  let ?r2 = "([\<lparr>kind = ARRAY_START, path = Some [Key ''b'']\<rparr>,
             \<lparr>kind = BOOLEAN_VALUE True, path = Some [Key ''b'', Index 0]\<rparr>,
             \<lparr>kind = ARRAY_END, path = Some [Key ''b'']\<rparr>], JArray [JBool True :: int json])"
  have "list_all (\<lambda>r. wf_value (fst r) (snd r)) [?r1, ?r2]"
    by (simp add: wf_number wf_example_array)
  from deserialize_root_values [OF this, of "\<lambda>v. []"] show ?thesis by simp
qed

text \<open>
  Claim C5. After complete root-level values \<open>rs\<close> and a part \<open>q\<close> of a further value
  that stops before that value's last chunk, the results are those of \<open>rs\<close> and nothing
  of the unfinished value; the last chunk of the value adds exactly the finished value.
  So every result belongs to a root-level value whose last chunk has been read, and no
  other chunk of a well-formed input enqueues anything. (On any input at all, a chunk
  that enqueues leaves the deserializer in \<open>ROOT\<close> with no value in progress:
  \<open>emission_returns_to_root\<close>.)
\<close>

theorem no_partial_value:
  assumes "list_all (\<lambda>r. wf_value (fst r) (snd r)) rs" and "wf_value cs v" and "strict_prefix q cs"
  shows "deserialize f (concat (map fst rs) @ q) = map (\<lambda>r. (snd r, path (hd (fst r)))) rs
    \<and> deserialize f (concat (map fst rs) @ cs)
        = map (\<lambda>r. (snd r, path (hd (fst r)))) rs @ [(v, path (hd cs))]"
proof -
  obtain p1 where st: "fst (run f (concat (map fst rs)) (ROOT None (Some []))) = ROOT None p1"
    and out: "snd (run f (concat (map fst rs)) (ROOT None (Some [])))
        = map (\<lambda>r. (snd r, path (hd (fst r)))) rs"
    using run_root_values [OF assms(1), of f "Some []"] by blast
  have "snd (run f q (ROOT None p1)) = []"
    using wf_run(1) [OF assms(2), of f] assms(3) by blast
  moreover have "snd (run f cs (ROOT None p1)) = [(v, path (hd cs))]"
    by (simp add: run_root_value [OF assms(2)])
  ultimately show ?thesis
    by (simp add: deserialize_def initial_state_def snd_run_append st out)
qed

theorem no_partial_value_witness:
  "deserialize (\<lambda>v. [])
     [\<lparr>kind = NUMBER_VALUE (1::int), path = Some [Key ''a'']\<rparr>,
      \<lparr>kind = ARRAY_START, path = Some [Key ''b'']\<rparr>,
      \<lparr>kind = BOOLEAN_VALUE True, path = Some [Key ''b'', Index 0]\<rparr>]
   = [(JNumber 1, Some [Key ''a''])]
   \<and> deserialize (\<lambda>v. [])
     [\<lparr>kind = NUMBER_VALUE (1::int), path = Some [Key ''a'']\<rparr>,
      \<lparr>kind = ARRAY_START, path = Some [Key ''b'']\<rparr>,
      \<lparr>kind = BOOLEAN_VALUE True, path = Some [Key ''b'', Index 0]\<rparr>,
      \<lparr>kind = ARRAY_END, path = Some [Key ''b'']\<rparr>]
   = [(JNumber 1, Some [Key ''a'']), (JArray [JBool True], Some [Key ''b''])]"
proof -
  let ?r1 = "([\<lparr>kind = NUMBER_VALUE (1::int), path = Some [Key ''a'']\<rparr>], JNumber (1::int))"
  let ?q = "[\<lparr>kind = ARRAY_START, path = Some [Key ''b'']\<rparr>,
             \<lparr>kind = BOOLEAN_VALUE True, path = Some [Key ''b'', Index 0]\<rparr> :: int chunk]"
  have 1: "list_all (\<lambda>r. wf_value (fst r) (snd r)) [?r1]"
    by (simp add: wf_number)
  have 3: "strict_prefix ?q (?q @ [\<lparr>kind = ARRAY_END, path = Some [Key ''b'']\<rparr>])"
    by (simp add: strict_prefix_def)
  from no_partial_value [OF 1 _ 3, of "JArray [JBool True]" "\<lambda>v. []"] wf_example_array
  show ?thesis by simp
qed

section \<open>Strings delivered in pieces\<close>

text \<open>
  Claim C7. A string value arrives as a start chunk, content chunks \<open>ts\<close> and an end
  chunk, all of role \<open>VALUE\<close>. Up to the end chunk nothing is completed: the state
  only holds the text read so far (and, in \<open>ROOT\<close>, the path of the start chunk). The
  end chunk calls \<open>handleValueEnd\<close> once, on the concatenation of the chunk texts. The
  outcome depends on the texts only through their concatenation, so every way of cutting
  the same content into chunks gives the same string; at root level it is enqueued once.
\<close>

theorem string_value_run:
  "run f (\<lparr>kind = STRING_START VALUE, path = p\<rparr>
            # map (\<lambda>(q, t). \<lparr>kind = STRING_CHUNK VALUE t, path = q\<rparr>) ts) st
     = (set_root_path p (set_value (Some (JString (concat (map snd ts)))) st), [])
   \<and> run f (string_run VALUE p ts p') st
     = handleValueEnd (set_root_path p (set_value (Some (JString (concat (map snd ts)))) st))
   \<and> deserialize f (string_run VALUE p ts p') = [(JString (concat (map snd ts)), p)]"
proof -
  have whole: "run f (string_run VALUE p ts p') st'
      = handleValueEnd (set_root_path p (set_value (Some (JString (concat (map snd ts)))) st'))"
    for st' :: "'a state"
    by (rule string_run_value)
  have "run f (\<lparr>kind = STRING_START VALUE, path = p\<rparr>
            # map (\<lambda>(q, t). \<lparr>kind = STRING_CHUNK VALUE t, path = q\<rparr>) ts) st
     = (set_root_path p (set_value (Some (JString (concat (map snd ts)))) st), [])"
    by (simp add: run_value_chunks_root_path)
  moreover have "deserialize f (string_run VALUE p ts p') = [(JString (concat (map snd ts)), p)]"
    by (simp add: deserialize_def initial_state_def whole)
  ultimately show ?thesis using whole [of st] by simp
qed

theorem string_value_run_witness:
  "deserialize (\<lambda>v. [])
     [\<lparr>kind = STRING_START VALUE, path = Some [Index 0]\<rparr>,
      \<lparr>kind = STRING_CHUNK VALUE ''app'', path = Some [Index 0]\<rparr>,
      \<lparr>kind = STRING_CHUNK VALUE ''le1'', path = Some [Index 0]\<rparr>,
      \<lparr>kind = STRING_END VALUE, path = Some [Index 0]\<rparr>]
     = [(JString ''apple1'' :: int json, Some [Index 0])]
   \<and> deserialize (\<lambda>v. [])
     [\<lparr>kind = STRING_START VALUE, path = Some [Index 0]\<rparr>,
      \<lparr>kind = STRING_CHUNK VALUE ''a'', path = Some [Index 0]\<rparr>,
      \<lparr>kind = STRING_CHUNK VALUE ''pple1'', path = Some [Index 0]\<rparr>,
      \<lparr>kind = STRING_END VALUE, path = Some [Index 0]\<rparr>]
     = [(JString ''apple1'' :: int json, Some [Index 0])]"
  using string_value_run [of "\<lambda>v::int json. []" "Some [Index 0]"
      "[(Some [Index 0], ''app''), (Some [Index 0], ''le1'')]" initial_state "Some [Index 0]"]
    string_value_run [of "\<lambda>v::int json. []" "Some [Index 0]"
      "[(Some [Index 0], ''a''), (Some [Index 0], ''pple1'')]" initial_state "Some [Index 0]"]
  by (simp add: string_run_def)

section \<open>End chunks without an open container\<close>

text \<open>
  Claim C6 says that an \<open>OBJECT_END\<close> while no object is open, or an \<open>ARRAY_END\<close>
  while no array is open, is a fatal failure from which the deserializer does not
  recover. The source has no such failure: the branches of lines 94 and 111 are guarded
  by the state type, no branch of \<open>transform\<close> throws, and a chunk that matches no
  branch falls through. At the initial state both end chunks leave the state as it is
  and enqueue nothing, and a number that follows is deserialized as usual.
\<close>

theorem structural_violation_counterexample:
  "transform (\<lambda>v. []) \<lparr>kind = OBJECT_END, path = Some []\<rparr> (initial_state :: int state)
     = (initial_state, [])
   \<and> transform (\<lambda>v. []) \<lparr>kind = ARRAY_END, path = Some []\<rparr> (initial_state :: int state)
     = (initial_state, [])
   \<and> deserialize (\<lambda>v. [])
        [\<lparr>kind = OBJECT_END, path = Some []\<rparr>, \<lparr>kind = NUMBER_VALUE (1::int), path = Some []\<rparr>]
     = [(JNumber 1, Some [])]"
  by (simp add: deserialize_def initial_state_def)

text \<open>
  Claim C6 as amended. An \<open>OBJECT_END\<close> in a state that is not \<open>OBJECT_PROPERTY\<close>, and
  an \<open>ARRAY_END\<close> in a state that is not \<open>ARRAY_ITEM\<close>, is ignored: the state is
  unchanged, nothing is enqueued, no error is raised, and the chunks that follow are
  processed as if the chunk had not been there.
\<close>

theorem unmatched_end_ignored:
  "(\<not> is_object_property st \<longrightarrow>
      transform f \<lparr>kind = OBJECT_END, path = p\<rparr> st = (st, [])
      \<and> run f (\<lparr>kind = OBJECT_END, path = p\<rparr> # cs) st = run f cs st)
   \<and> (\<not> is_array_item st \<longrightarrow>
      transform f \<lparr>kind = ARRAY_END, path = p\<rparr> st = (st, [])
      \<and> run f (\<lparr>kind = ARRAY_END, path = p\<rparr> # cs) st = run f cs st)"
  by (cases st) (simp_all split: prod.splits)

theorem unmatched_end_ignored_witness:
  "\<not> is_object_property (ARRAY_ITEM [] None (initial_state :: int state))
   \<and> run (\<lambda>v. [])
       [\<lparr>kind = OBJECT_END, path = Some [Index 0]\<rparr>,
        \<lparr>kind = NULL_VALUE, path = Some [Index 0]\<rparr>,
        \<lparr>kind = ARRAY_END, path = Some []\<rparr>]
       (ARRAY_ITEM [] None (initial_state :: int state))
     = (ROOT None (Some []), [(JArray [JNull], Some [])])"
  using unmatched_end_ignored [of "ARRAY_ITEM [] None (initial_state :: int state)" "\<lambda>v. []"
      "Some [Index 0]"
      "[\<lparr>kind = NULL_VALUE, path = Some [Index 0]\<rparr>, \<lparr>kind = ARRAY_END, path = Some []\<rparr>]"]
  by (simp add: initial_state_def)

section \<open>The object that is built\<close>

lemma has_key_iff: "has_key k ps \<longleftrightarrow> k \<in> fst ` set ps"
  by (induction ps) (auto)

lemma keys_replace_value: "map fst (replace_value k v ps) = map fst ps"
  by (induction ps) auto

lemma map_of_replace_value:
  "has_key k ps \<Longrightarrow> map_of (replace_value k v ps) = (map_of ps)(k \<mapsto> v)"
  by (induction ps) (auto simp: fun_upd_twist)

lemma set_insert_index: "set (insert_index k v ps) = insert (k, v) (set ps)"
proof (induction ps)
  case Nil then show ?case by simp
next
  case (Cons a ps)
  obtain k' v' where a: "a = (k', v')" by (cases a)
  show ?case
  proof (cases "is_array_index k' \<and> index_of k' < index_of k")
    case True with Cons show ?thesis by (auto simp: a)
  next
    case False then show ?thesis by (auto simp: a)
  qed
qed

lemma set_keys_insert_index: "fst ` set (insert_index k v ps) = insert k (fst ` set ps)"
  by (simp add: set_insert_index)

lemma distinct_insert_index:
  "k \<notin> fst ` set ps \<Longrightarrow> distinct (map fst ps) \<Longrightarrow> distinct (map fst (insert_index k v ps))"
proof (induction ps)
  case Nil then show ?case by simp
next
  case (Cons a ps)
  then show ?case by (cases a) (auto simp: set_keys_insert_index)
qed

lemma map_of_insert_index:
  "k \<notin> fst ` set ps \<Longrightarrow> map_of (insert_index k v ps) = (map_of ps)(k \<mapsto> v)"
  by (induction ps) (auto simp: fun_upd_twist)

lemma map_of_snoc:
  "k \<notin> fst ` set ps \<Longrightarrow> map_of (ps @ [(k, v)]) = (map_of ps)(k \<mapsto> v)"
  by (induction ps) (auto simp: fun_upd_twist)

lemma filter_keys_insert_index:
  "is_array_index k \<Longrightarrow>
     filter (\<lambda>k. \<not> is_array_index k) (map fst (insert_index k v ps))
       = filter (\<lambda>k. \<not> is_array_index k) (map fst ps)"
  by (induction ps) auto

lemma key_before_trans: "key_before a b \<Longrightarrow> key_before b c \<Longrightarrow> key_before a c"
  by (auto simp: key_before_def split: if_splits)

lemma sorted_insert_index:
  assumes "is_array_index k" and "sorted_wrt key_before (map fst ps)"
  shows "sorted_wrt key_before (map fst (insert_index k v ps))"
  using assms(2)
proof (induction ps)
  case Nil then show ?case by simp
next
  case (Cons a ps)
  obtain k' v' where a: "a = (k', v')" by (cases a)
  show ?case
  proof (cases "is_array_index k' \<and> index_of k' < index_of k")
    case True
    have "key_before k' x" if "x \<in> fst ` set (insert_index k v ps)" for x
      using that Cons.prems True assms(1)
      by (auto simp: a set_keys_insert_index key_before_def)
    then show ?thesis using Cons True by (auto simp: a)
  next
    case False
    have k': "key_before k k'" using False assms(1) by (auto simp: key_before_def)
    have "key_before k x" if "x \<in> fst ` set ps" for x
      using that Cons.prems k' key_before_trans [of k k' x] by (auto simp: a)
    then show ?thesis using Cons.prems False k' by (auto simp: a)
  qed
qed

lemma sorted_snoc_key:
  "\<not> is_array_index k \<Longrightarrow> sorted_wrt key_before ks \<Longrightarrow> sorted_wrt key_before (ks @ [k])"
  by (simp add: sorted_wrt_append key_before_def)

lemma obj_assign_ordinary:
  "k \<noteq> ''__proto__'' \<Longrightarrow>
     obj_assign k v (p, ps)
       = (p, if has_key k ps then replace_value k v ps else create_property k v ps)"
  by (simp add: obj_assign_def)

lemma keys_create_property:
  "fst ` set (create_property k v ps) = insert k (fst ` set ps)"
  by (simp add: create_property_def set_keys_insert_index)

lemma step_distinct:
  assumes "k \<noteq> ''__proto__''" and "distinct (map fst ps)"
  shows "distinct (map fst (snd (obj_assign k v (p, ps))))"
  using assms
  by (auto simp: obj_assign_ordinary keys_replace_value create_property_def has_key_iff
      intro: distinct_insert_index)

lemma step_map_of:
  assumes "k \<noteq> ''__proto__''"
  shows "map_of (snd (obj_assign k v (p, ps))) = (map_of ps)(k \<mapsto> v)"
  using assms
  by (auto simp: obj_assign_ordinary map_of_replace_value create_property_def has_key_iff
      map_of_insert_index map_of_snoc simp del: map_of_append)

text \<open>
  For every key other than \<^verbatim>\<open>__proto__\<close> the completed value is stored under the key:
  afterwards the object has the value under this key and what it had under every other
  key.
\<close>

lemma handleValueEnd_stores:
  assumes "k \<noteq> ''__proto__''"
  shows "\<exists>ps'. handleValueEnd (OBJECT_PROPERTY pr ps k (Some x) parent)
             = (OBJECT_PROPERTY pr ps' [] None parent, [])
           \<and> map_of ps' = (map_of ps)(k \<mapsto> x)"
  using step_map_of [OF assms, of x pr ps] obj_assign_ordinary [OF assms, of x pr ps]
  by (simp split: prod.splits)

lemma step_sorted:
  assumes "k \<noteq> ''__proto__''" and "sorted_wrt key_before (map fst ps)"
  shows "sorted_wrt key_before (map fst (snd (obj_assign k v (p, ps))))"
  using assms
  by (auto simp: obj_assign_ordinary keys_replace_value create_property_def
      intro: sorted_insert_index sorted_snoc_key)

lemma step_other_keys:
  assumes "k \<noteq> ''__proto__''"
  shows "filter (\<lambda>k. \<not> is_array_index k) (map fst (snd (obj_assign k v (p, ps))))
    = (if is_array_index k \<or> k \<in> set (filter (\<lambda>k. \<not> is_array_index k) (map fst ps))
       then filter (\<lambda>k. \<not> is_array_index k) (map fst ps)
       else filter (\<lambda>k. \<not> is_array_index k) (map fst ps) @ [k])"
  using assms
  by (auto simp: obj_assign_ordinary keys_replace_value create_property_def has_key_iff
      filter_keys_insert_index)

lemma obj_assign_pair:
  "k \<noteq> ''__proto__'' \<Longrightarrow> obj_assign k v (p, ps) = (p, snd (obj_assign k v (p, ps)))"
  by (simp add: obj_assign_ordinary)

lemma build_object_Cons:
  "build_object ob ((k, v) # ms) = build_object (obj_assign k v ob) ms"
  by (simp add: build_object_def)

lemma build_proto:
  "''__proto__'' \<notin> fst ` set ms \<Longrightarrow> fst (build_object (p, ps) ms) = p"
proof (induction ms arbitrary: ps)
  case Nil then show ?case by (simp add: build_object_def)
next
  case (Cons m ms)
  obtain k v where m: "m = (k, v)" by (cases m)
  with Cons.prems have k: "k \<noteq> ''__proto__''" and rest: "''__proto__'' \<notin> fst ` set ms" by auto
  show ?case using Cons.IH [OF rest] by (simp add: m build_object_Cons obj_assign_ordinary [OF k])
qed

lemma build_distinct:
  "''__proto__'' \<notin> fst ` set ms \<Longrightarrow> distinct (map fst ps)
     \<Longrightarrow> distinct (map fst (snd (build_object (p, ps) ms)))"
proof (induction ms arbitrary: ps)
  case Nil then show ?case by (simp add: build_object_def)
next
  case (Cons m ms)
  obtain k v where m: "m = (k, v)" by (cases m)
  with Cons.prems have k: "k \<noteq> ''__proto__''" and rest: "''__proto__'' \<notin> fst ` set ms" by auto
  have "distinct (map fst (snd (obj_assign k v (p, ps))))"
    using k Cons.prems(2) by (rule step_distinct)
  from Cons.IH [OF rest this]
  show ?case using obj_assign_pair [OF k, of v p ps] by (simp add: m build_object_Cons)
qed

lemma build_sorted:
  "''__proto__'' \<notin> fst ` set ms \<Longrightarrow> sorted_wrt key_before (map fst ps)
     \<Longrightarrow> sorted_wrt key_before (map fst (snd (build_object (p, ps) ms)))"
proof (induction ms arbitrary: ps)
  case Nil then show ?case by (simp add: build_object_def)
next
  case (Cons m ms)
  obtain k v where m: "m = (k, v)" by (cases m)
  with Cons.prems have k: "k \<noteq> ''__proto__''" and rest: "''__proto__'' \<notin> fst ` set ms" by auto
  have "sorted_wrt key_before (map fst (snd (obj_assign k v (p, ps))))"
    using k Cons.prems(2) by (rule step_sorted)
  from Cons.IH [OF rest this]
  show ?case using obj_assign_pair [OF k, of v p ps] by (simp add: m build_object_Cons)
qed

lemma build_map_of:
  "''__proto__'' \<notin> fst ` set ms
     \<Longrightarrow> map_of (snd (build_object (p, ps) ms)) = map_of (rev ms @ ps)"
proof (induction ms arbitrary: ps)
  case Nil then show ?case by (simp add: build_object_def)
next
  case (Cons m ms)
  obtain k v where m: "m = (k, v)" by (cases m)
  with Cons.prems have k: "k \<noteq> ''__proto__''" and rest: "''__proto__'' \<notin> fst ` set ms" by auto
  from Cons.IH [OF rest, of "snd (obj_assign k v (p, ps))"]
  have "map_of (snd (build_object (p, ps) (m # ms)))
      = map_of (rev ms @ snd (obj_assign k v (p, ps)))"
    using obj_assign_pair [OF k, of v p ps] by (simp add: m build_object_Cons)
  also have "\<dots> = map_of (snd (obj_assign k v (p, ps))) ++ map_of (rev ms)"
    by simp
  also have "\<dots> = (map_of ps)(k \<mapsto> v) ++ map_of (rev ms)"
    by (simp only: step_map_of [OF k])
  also have "\<dots> = map_of (rev (m # ms) @ ps)"
    by (simp add: m)
  finally show ?case .
qed

lemma build_other_keys:
  "''__proto__'' \<notin> fst ` set ms \<Longrightarrow>
     filter (\<lambda>k. \<not> is_array_index k) (map fst (snd (build_object (p, ps) ms)))
       = foldl (\<lambda>acc k. if k \<in> set acc then acc else acc @ [k])
           (filter (\<lambda>k. \<not> is_array_index k) (map fst ps))
           (filter (\<lambda>k. \<not> is_array_index k) (map fst ms))"
proof (induction ms arbitrary: ps)
  case Nil then show ?case by (simp add: build_object_def)
next
  case (Cons m ms)
  obtain k v where m: "m = (k, v)" by (cases m)
  with Cons.prems have k: "k \<noteq> ''__proto__''" and rest: "''__proto__'' \<notin> fst ` set ms" by auto
  from Cons.IH [OF rest, of "snd (obj_assign k v (p, ps))"]
  show ?case using obj_assign_pair [OF k, of v p ps]
    by (simp add: m build_object_Cons step_other_keys [OF k])
qed

lemma deserialize_one_value:
  assumes "wf_value cs v"
  shows "deserialize f cs = [(v, path (hd cs))]"
  using wf_run(1) [OF assms, of f] by (simp add: deserialize_def initial_state_def)

lemma is_array_index_examples:
  "is_array_index ''1''" "is_array_index ''2''" "\<not> is_array_index ''b''"
  by (simp_all add: is_array_index_def is_digit_def index_of_def)

lemma index_of_examples: "index_of ''1'' = 1" "index_of ''2'' = 2"
  by (simp_all add: index_of_def)

text \<open>
  Claim C4 says that the keys of a built object keep their insertion order, that they are
  unique, and that the later of two values for one key wins. The order fails: the object
  is a plain JavaScript object, whose keys that are array indexes come first and in
  numeric order, whatever the order of insertion. The members \<^verbatim>\<open>"2": true, "1": false\<close>
  give an object whose keys are \<^verbatim>\<open>"1", "2"\<close>.
\<close>

theorem object_key_order_counterexample:
  "deserialize (\<lambda>v. [])
     [\<lparr>kind = OBJECT_START, path = Some []\<rparr>,
      \<lparr>kind = STRING_START KEY, path = Some []\<rparr>,
      \<lparr>kind = STRING_CHUNK KEY ''2'', path = Some []\<rparr>,
      \<lparr>kind = STRING_END KEY, path = Some []\<rparr>,
      \<lparr>kind = BOOLEAN_VALUE True, path = Some [Key ''2'']\<rparr>,
      \<lparr>kind = STRING_START KEY, path = Some []\<rparr>,
      \<lparr>kind = STRING_CHUNK KEY ''1'', path = Some []\<rparr>,
      \<lparr>kind = STRING_END KEY, path = Some []\<rparr>,
      \<lparr>kind = BOOLEAN_VALUE False, path = Some [Key ''1'']\<rparr>,
      \<lparr>kind = OBJECT_END, path = Some []\<rparr>]
   = [(JObject ObjectPrototype [(''1'', JBool False), (''2'', JBool True :: int json)], Some [])]"
  by (simp add: deserialize_def initial_state_def obj_assign_def create_property_def
      is_array_index_def is_digit_def index_of_def)

text \<open>
  Claim C4 as amended, for an object whose members \<open>ms\<close> have keys other than
  \<^verbatim>\<open>__proto__\<close>: the keys of the built object are unique; each key has the value of its
  last occurrence; the keys that are array indexes come first, in ascending numeric
  order; the other keys follow in the order of their first insertion.
\<close>

theorem object_keys:
  assumes "wf_members cs ms" and "''__proto__'' \<notin> fst ` set ms"
  shows "deserialize f (\<lparr>kind = OBJECT_START, path = p\<rparr> # cs @ [\<lparr>kind = OBJECT_END, path = p'\<rparr>])
      = [(JObject ObjectPrototype (snd (build_object (ObjectPrototype, []) ms)), p)]
    \<and> distinct (map fst (snd (build_object (ObjectPrototype, []) ms)))
    \<and> map_of (snd (build_object (ObjectPrototype, []) ms)) = map_of (rev ms)
    \<and> sorted_wrt key_before (map fst (snd (build_object (ObjectPrototype, []) ms)))
    \<and> filter (\<lambda>k. \<not> is_array_index k) (map fst (snd (build_object (ObjectPrototype, []) ms)))
        = insertion_order (filter (\<lambda>k. \<not> is_array_index k) (map fst ms))"
proof -
  let ?cs = "\<lparr>kind = OBJECT_START, path = p\<rparr> # cs @ [\<lparr>kind = OBJECT_END, path = p'\<rparr>]"
  have "wf_value ?cs (object_value (build_object (ObjectPrototype, []) ms))"
    using assms(1) by (rule wf_object)
  then have "deserialize f ?cs = [(object_value (build_object (ObjectPrototype, []) ms), p)]"
    using deserialize_one_value [of ?cs _ f] by simp
  then have "deserialize f ?cs
      = [(JObject ObjectPrototype (snd (build_object (ObjectPrototype, []) ms)), p)]"
    by (simp add: object_value_def build_proto [OF assms(2)])
  moreover have "distinct (map fst (snd (build_object (ObjectPrototype, []) ms)))"
    using build_distinct [OF assms(2), of "[]"] by simp
  moreover have "map_of (snd (build_object (ObjectPrototype, []) ms)) = map_of (rev ms)"
    using build_map_of [OF assms(2), of ObjectPrototype "[]"] by simp
  moreover have "sorted_wrt key_before (map fst (snd (build_object (ObjectPrototype, []) ms)))"
    using build_sorted [OF assms(2), of "[]"] by simp
  moreover have "filter (\<lambda>k. \<not> is_array_index k)
        (map fst (snd (build_object (ObjectPrototype, []) ms)))
      = insertion_order (filter (\<lambda>k. \<not> is_array_index k) (map fst ms))"
    using build_other_keys [OF assms(2), of ObjectPrototype "[]"] by (simp add: insertion_order_def)
  ultimately show ?thesis by blast
qed

theorem object_keys_witness:
  "deserialize (\<lambda>v. [])
     (\<lparr>kind = OBJECT_START, path = Some []\<rparr>
      # (string_run KEY None [(None, ''b'')] None @ [\<lparr>kind = NUMBER_VALUE (1::int), path = None\<rparr>]
         @ string_run KEY None [(None, ''2'')] None @ [\<lparr>kind = NUMBER_VALUE 2, path = None\<rparr>]
         @ string_run KEY None [(None, ''b'')] None @ [\<lparr>kind = NUMBER_VALUE 3, path = None\<rparr>]
         @ string_run KEY None [(None, ''1'')] None @ [\<lparr>kind = NUMBER_VALUE 4, path = None\<rparr>]
         @ [])
      @ [\<lparr>kind = OBJECT_END, path = Some []\<rparr>])
   = [(JObject ObjectPrototype [(''1'', JNumber 4), (''2'', JNumber 2), (''b'', JNumber 3)],
       Some [])]"
proof -
  note m4 = wf_members_cons [where p = None and ts = "[(None, ''1'')]" and p' = None,
      OF wf_number [of "4::int" None] wf_members_nil]
  note m3 = wf_members_cons [where p = None and ts = "[(None, ''b'')]" and p' = None,
      OF wf_number [of "3::int" None] m4]
  note m2 = wf_members_cons [where p = None and ts = "[(None, ''2'')]" and p' = None,
      OF wf_number [of "2::int" None] m3]
  note m1 = wf_members_cons [where p = None and ts = "[(None, ''b'')]" and p' = None,
      OF wf_number [of "1::int" None] m2]
  have "''__proto__'' \<notin> fst ` set [(concat (map snd [(None :: json_path option, ''b'')]), JNumber (1::int)),
      (concat (map snd [(None :: json_path option, ''2'')]), JNumber 2),
      (concat (map snd [(None :: json_path option, ''b'')]), JNumber 3),
      (concat (map snd [(None :: json_path option, ''1'')]), JNumber 4)]"
    by simp
  from object_keys [OF m1 this, of "\<lambda>v. []" "Some []" "Some []"]
  show ?thesis
    by (simp add: build_object_def obj_assign_def create_property_def is_array_index_examples
        index_of_examples)
qed

section \<open>The value in progress\<close>

text \<open>
  Between two calls of \<open>transform\<close> the \<open>value\<close> of the current state is
  \<^verbatim>\<open>undefined\<close> or a string, whatever the input. So the conversion \<open>to_string\<close> of
  line 77 is never applied, and the results do not depend on it.
\<close>

lemma get_value_handleValueEnd: "get_value (fst (handleValueEnd st)) = None"
  by (cases st) (auto split: option.splits prod.splits)

lemma get_set_value: "get_value (set_value v st) = v"
  by (cases st) simp_all

lemma get_value_set_root_path: "get_value (set_root_path p st) = get_value st"
  by (cases st) simp_all

lemma transform_value_in_progress:
  assumes "string_or_undefined (get_value st)"
  shows "string_or_undefined (get_value (fst (transform f c st)))"
proof (cases "kind c")
  case (STRING_CHUNK r t)
  then show ?thesis using assms
    by (cases st; cases "get_value st"; cases r)
      (auto simp: get_set_value elim: string_or_undefined.elims)
next
  case (STRING_START r)
  then show ?thesis using assms by (simp add: get_set_value get_value_set_root_path)
next
  case (STRING_END r)
  then show ?thesis using assms by (simp add: get_value_handleValueEnd)
next
  case ARRAY_END
  then show ?thesis using assms by (cases st) (simp_all add: get_value_handleValueEnd)
next
  case OBJECT_END
  then show ?thesis using assms by (cases st) (simp_all add: get_value_handleValueEnd)
qed (simp_all add: get_value_handleValueEnd)

lemma plus_string_to_string:
  "string_or_undefined v \<Longrightarrow> plus_string f v t = plus_string g v t"
  by (induction v rule: string_or_undefined.induct) simp_all

lemma transform_to_string:
  "string_or_undefined (get_value st) \<Longrightarrow> transform f c st = transform g c st"
  using plus_string_to_string [of "get_value st" f _ g]
  by (cases "kind c") simp_all

lemma run_Cons_pair:
  "run f (c # cs) st
     = (fst (run f cs (fst (transform f c st))),
        snd (transform f c st) @ snd (run f cs (fst (transform f c st))))"
  by (simp del: transform.simps split: prod.splits)

lemma run_to_string:
  "string_or_undefined (get_value st) \<Longrightarrow> run f cs st = run g cs st"
proof (induction cs arbitrary: st)
  case Nil then show ?case by simp
next
  case (Cons c cs)
  have "run f cs (fst (transform f c st)) = run g cs (fst (transform f c st))"
    using Cons.prems by (intro Cons.IH transform_value_in_progress)
  then show ?case using transform_to_string [OF Cons.prems, of f c g]
    by (simp only: run_Cons_pair)
qed

lemma value_in_progress:
  "string_or_undefined (get_value (fst (run f cs initial_state)))"
proof -
  have "string_or_undefined (get_value st)
      \<Longrightarrow> string_or_undefined (get_value (fst (run f cs st)))" for st :: "'a state"
  proof (induction cs arbitrary: st)
    case Nil then show ?case by simp
  next
    case (Cons c cs)
    from Cons.IH [OF transform_value_in_progress [OF Cons.prems, of f c]]
    show ?case by (simp only: run_Cons_pair fst_conv)
  qed
  then show ?thesis by (simp add: initial_state_def)
qed

lemma deserialize_to_string: "deserialize f cs = deserialize g cs"
  using run_to_string [of initial_state f cs g] by (simp add: deserialize_def initial_state_def)

section \<open>Falsy values\<close>

text \<open>
  \<open>handleValueEnd\<close> compares the value with \<^verbatim>\<open>undefined\<close> (\<open>None\<close>) and with nothing
  else. The values \<^verbatim>\<open>false\<close>, \<^verbatim>\<open>0\<close> and the empty string (delivered as a string whose
  chunks, if any, are all empty) are therefore completed like every other value: at root
  level the value is enqueued, in an object the assignment \<^verbatim>\<open>object[key] = value\<close> is
  carried out with it, in an array it is pushed. Only when there is no value does
  \<open>handleValueEnd\<close> enqueue, assign and push nothing. By \<open>handleValueEnd_stores\<close> the
  assignment stores the value under every key other than \<^verbatim>\<open>__proto__\<close>.
\<close>

lemma falsy_values_completed:
  fixes f :: "('n::zero) json \<Rightarrow> string"
  assumes "cs = [\<lparr>kind = BOOLEAN_VALUE False, path = p\<rparr>] \<and> v = JBool False
    \<or> cs = [\<lparr>kind = NUMBER_VALUE 0, path = p\<rparr>] \<and> v = JNumber 0
    \<or> cs = string_run VALUE p ts p' \<and> concat (map snd ts) = [] \<and> v = JString []"
  shows "run f cs (ROOT None p0) = (ROOT None p, [(v, p)])
    \<and> run f cs (OBJECT_PROPERTY pr ps k None parent)
        = (OBJECT_PROPERTY (fst (obj_assign k v (pr, ps))) (snd (obj_assign k v (pr, ps)))
             [] None parent, [])
    \<and> run f cs (ARRAY_ITEM a None parent) = (ARRAY_ITEM (a @ [v]) None parent, [])
    \<and> handleValueEnd (ROOT None p0) = (ROOT None p0, [])
    \<and> handleValueEnd (OBJECT_PROPERTY pr ps k None parent)
        = (OBJECT_PROPERTY pr ps [] None parent, [])
    \<and> handleValueEnd (ARRAY_ITEM a None parent) = (ARRAY_ITEM a None parent, [])"
proof -
  have "run f cs st = handleValueEnd (set_root_path p (set_value (Some v) st))"
    for st :: "'n state"
  proof -
    from assms consider "cs = [\<lparr>kind = BOOLEAN_VALUE False, path = p\<rparr>]" "v = JBool False"
      | "cs = [\<lparr>kind = NUMBER_VALUE 0, path = p\<rparr>]" "v = JNumber 0"
      | "cs = string_run VALUE p ts p'" "concat (map snd ts) = []" "v = JString []"
      by blast
    then show ?thesis
    proof cases
      case 1 then show ?thesis by simp
    next
      case 2 then show ?thesis by simp
    next
      case 3
      then show ?thesis using string_run_value [of f p ts p' st] by (simp only:)
    qed
  qed
  then show ?thesis by (simp split: prod.splits)
qed

text \<open>
  Claim C10. The claim says that a falsy value is never dropped and that, as an object
  property, it is stored under its key. The code misses the key \<^verbatim>\<open>__proto__\<close>: the
  assignment of line 49 reaches the setter of \<^verbatim>\<open>Object.prototype\<close>, which ignores
  \<^verbatim>\<open>false\<close>, \<^verbatim>\<open>0\<close> and the empty string. The chunks of the JSON texts
  \<^verbatim>\<open>{"__proto__":false}\<close> and \<^verbatim>\<open>{"__proto__":""}\<close> are deserialized to the object without
  properties, which is also the result when no value at all arrives between the key and
  the end of the object: the falsy value is dropped.
\<close>

theorem falsy_value_dropped:
  "deserialize (\<lambda>v. [])
       [\<lparr>kind = OBJECT_START, path = Some []\<rparr>,
        \<lparr>kind = STRING_START KEY, path = Some []\<rparr>,
        \<lparr>kind = STRING_CHUNK KEY ''__proto__'', path = Some []\<rparr>,
        \<lparr>kind = STRING_END KEY, path = Some []\<rparr>,
        \<lparr>kind = BOOLEAN_VALUE False, path = Some [Key ''__proto__'']\<rparr>,
        \<lparr>kind = OBJECT_END, path = Some []\<rparr>]
     = [(JObject ObjectPrototype [] :: int json, Some [])]
   \<and> deserialize (\<lambda>v. [])
       [\<lparr>kind = OBJECT_START, path = Some []\<rparr>,
        \<lparr>kind = STRING_START KEY, path = Some []\<rparr>,
        \<lparr>kind = STRING_CHUNK KEY ''__proto__'', path = Some []\<rparr>,
        \<lparr>kind = STRING_END KEY, path = Some []\<rparr>,
        \<lparr>kind = STRING_START VALUE, path = Some [Key ''__proto__'']\<rparr>,
        \<lparr>kind = STRING_END VALUE, path = Some [Key ''__proto__'']\<rparr>,
        \<lparr>kind = OBJECT_END, path = Some []\<rparr>]
     = [(JObject ObjectPrototype [] :: int json, Some [])]
   \<and> deserialize (\<lambda>v. [])
       [\<lparr>kind = OBJECT_START, path = Some []\<rparr>,
        \<lparr>kind = STRING_START KEY, path = Some []\<rparr>,
        \<lparr>kind = STRING_CHUNK KEY ''__proto__'', path = Some []\<rparr>,
        \<lparr>kind = STRING_END KEY, path = Some []\<rparr>,
        \<lparr>kind = OBJECT_END, path = Some []\<rparr>]
     = [(JObject ObjectPrototype [] :: int json, Some [])]"
  by (simp add: obj_assign_def deserialize_def initial_state_def)

section \<open>Abort propagation in the splitter\<close>

lemma example_splitter_table:
  "table example_splitter =
     [\<lparr>sub_path = Some [Key ''a''], buffered = [], closed = True, status = completed,
        sub_failure = None\<rparr>,
      \<lparr>sub_path = Some [Key ''b''],
        buffered = [\<lparr>kind = ARRAY_START, path = Some [Key ''b'']\<rparr>,
                    \<lparr>kind = NULL_VALUE, path = Some [Key ''b'', Index 0]\<rparr>],
        closed = False, status = pending, sub_failure = None\<rparr>]"
  by (simp add: example_splitter_def new_splitter_def accept_def stalls_def store_def
      depth_after_def read_main_def read_sub_def read_from_def append_chunk_def)

text \<open>
  Claim C8. When the upstream fails with \<open>e\<close> while the splitter has emitted the
  sub-streams of its table, the next read of the main sequence fails with \<open>e\<close> and
  yields no descriptor, even if descriptors were still waiting to be read; and the next
  read of every emitted sub-stream fails with \<open>e\<close>, whether the sub-stream was read to
  its end, read in part or not read at all. A failed read changes nothing, so every
  later read fails in the same way.
\<close>

theorem abort_reaches_all:
  "read_main (upstream_abort e s) = (Failed e, upstream_abort e s)
   \<and> (\<forall>i < length (table s). read_sub i (upstream_abort e s) = (Failed e, upstream_abort e s))"
  by (simp add: read_main_def read_sub_def read_from_def upstream_abort_def list_update_same_conv)

theorem abort_reaches_all_witness:
  "length (table example_splitter) = 2
   \<and> fst (read_main (upstream_abort ''test'' example_splitter)) = Failed ''test''
   \<and> fst (read_sub 0 (upstream_abort ''test'' example_splitter)) = Failed ''test''
   \<and> fst (read_sub 1 (upstream_abort ''test'' example_splitter)) = Failed ''test''"
  using abort_reaches_all [of "''test''" example_splitter]
  by (simp add: example_splitter_table)

section \<open>Fragments\<close>





lemma explode_kinds_append [simp]:
  "explode_kinds (xs @ ys) = explode_kinds xs @ explode_kinds ys"
  by (simp add: explode_kinds_def)





section \<open>The events of the example document\<close>


section \<open>String content in pieces: tracker and selector\<close>












section \<open>String content in pieces: splitter and deserializer\<close>


lemma explode_chunks_append [simp]:
  "explode_chunks (xs @ ys) = explode_chunks xs @ explode_chunks ys"
  by (simp add: explode_chunks_def)

lemma explode_chunks_Nil [simp]: "explode_chunks [] = []"
  by (simp add: explode_chunks_def)














section \<open>The splitter and its readers\<close>


lemma store_new:
  "table s = [] \<or> (open_depth s = 0 \<and> begins_value (kind c)) \<Longrightarrow>
     table (store c s) = table s @
       [\<lparr>sub_path = path c, buffered = [c], closed = (depth_after (kind c) 0 = 0),
         status = pending, sub_failure = None\<rparr>]
     \<and> open_depth (store c s) = depth_after (kind c) 0"
  by (auto simp: store_def)


lemma store_others [simp]:
  "handed (store c s) = handed s" "main_failure (store c s) = main_failure s"
  "ended (store c s) = ended s" "buffer_limit (store c s) = buffer_limit s"
  by (simp_all add: store_def)











lemma read_main_frame:
  "table (snd (read_main s)) = table s" "open_depth (snd (read_main s)) = open_depth s"
  "main_failure (snd (read_main s)) = main_failure s" "ended (snd (read_main s)) = ended s"
  "buffer_limit (snd (read_main s)) = buffer_limit s"
  by (simp_all add: read_main_def split: option.splits)


section \<open>The steps of the pipeline\<close>

lemma advance_stalled:
  "in_flight p = c # cs \<Longrightarrow> stalls c (fan_out p) \<Longrightarrow> advance produce finish p = p"
  by (simp add: advance_def accept_def)

lemma advance_taken:
  "in_flight p = c # cs \<Longrightarrow> \<not> stalls c (fan_out p) \<Longrightarrow>
     advance produce finish p = p\<lparr>in_flight := cs, fan_out := store c (fan_out p)\<rparr>"
  by (simp add: advance_def accept_def)

lemma advance_failed:
  "in_flight p = [] \<Longrightarrow> main_failure (fan_out p) \<noteq> None \<Longrightarrow> advance produce finish p = p"
  by (auto simp: advance_def)

lemma advance_ended:
  "in_flight p = [] \<Longrightarrow> main_failure (fan_out p) = None \<Longrightarrow> input_done p \<Longrightarrow>
     advance produce finish p = p\<lparr>fan_out := upstream_end (fan_out p)\<rparr>"
  by (simp add: advance_def)

lemma advance_fragment:
  "in_flight p = [] \<Longrightarrow> main_failure (fan_out p) = None \<Longrightarrow> \<not> input_done p \<Longrightarrow>
   unread p = fragment # fragments \<Longrightarrow> produce fragment (upstream p) = Inr (st, cs) \<Longrightarrow>
     advance produce finish p =
       p\<lparr>unread := fragments, consumed := consumed p + 1, upstream := st, in_flight := cs\<rparr>"
  by (simp add: advance_def)

lemma advance_fragment_fails:
  "in_flight p = [] \<Longrightarrow> main_failure (fan_out p) = None \<Longrightarrow> \<not> input_done p \<Longrightarrow>
   unread p = fragment # fragments \<Longrightarrow> produce fragment (upstream p) = Inl e \<Longrightarrow>
     advance produce finish p =
       p\<lparr>unread := fragments, consumed := consumed p + 1,
         fan_out := upstream_abort e (fan_out p)\<rparr>"
  by (simp add: advance_def)


lemma advance_finish_fails:
  "in_flight p = [] \<Longrightarrow> main_failure (fan_out p) = None \<Longrightarrow> \<not> input_done p \<Longrightarrow>
   unread p = [] \<Longrightarrow> finish (upstream p) = Inl e \<Longrightarrow>
     advance produce finish p =
       p\<lparr>input_done := True, fan_out := upstream_abort e (fan_out p)\<rparr>"
  by (simp add: advance_def)

lemma react_READ_MAIN:
  "react produce finish (READ_MAIN # events) p =
     (MAIN (fst (read_main (fan_out p)))
        # fst (react produce finish events (p\<lparr>fan_out := snd (read_main (fan_out p))\<rparr>)),
      snd (react produce finish events (p\<lparr>fan_out := snd (read_main (fan_out p))\<rparr>)))"
  by (simp split: prod.splits)



lemma received_append: "received i (xs @ ys) = received i xs @ received i ys"
  by (induction i xs rule: received.induct) simp_all

lemma descriptors_Cons: "descriptors (ob # obs) = descriptors [ob] @ descriptors obs"
proof (cases ob)
  case (MAIN r)
  then show ?thesis by (cases r) simp_all
next
  case (SUB j r)
  then show ?thesis by simp
qed

lemma descriptors_append: "descriptors (xs @ ys) = descriptors xs @ descriptors ys"
  by (induction xs rule: descriptors.induct) simp_all

section \<open>What the readers receive\<close>






section \<open>The descriptors\<close>
















section \<open>A consumer that keeps reading\<close>













section \<open>The example document through the pipeline\<close>


















section \<open>Backpressure\<close>

lemma store_table_cong:
  assumes "table s = table s'" and "open_depth s = open_depth s'"
  shows "table (store c s) = table (store c s') \<and> open_depth (store c s) = open_depth (store c s')"
  using assms by (simp add: store_def)

lemma feed_table_cong:
  assumes "table s = table s'" and "open_depth s = open_depth s'"
  shows "table (feed cs s) = table (feed cs s')"
  using assms
proof (induction cs arbitrary: s s')
  case Nil
  then show ?case by simp
next
  case (Cons c cs)
  from store_table_cong [OF Cons.prems, of c] Cons.IH [of "store c s" "store c s'"]
  show ?case by simp
qed

lemma overfull_cong: "table s = table s' \<Longrightarrow> overfull limit s = overfull limit s'"
  by (simp add: overfull_def)

lemma store_within:
  assumes "\<not> stalls c s" and "\<not> overfull (buffer_limit s) s"
  shows "\<not> overfull (buffer_limit s) (store c s)"
proof (cases "table s = [] \<or> (open_depth s = 0 \<and> begins_value (kind c))")
  case True
  with assms(1) have "0 < buffer_limit s" by (simp add: stalls_def)
  with assms(2) store_new [OF True] show ?thesis
    by (simp add: overfull_def)
next
  case False
  then have ne: "table s \<noteq> []" by simp
  from assms(1) False
  have room: "status (last (table s)) = cancelled
      \<or> length (buffered (last (table s))) < buffer_limit s"
    by (auto simp: stalls_def)
  have "table (store c s) = butlast (table s)
      @ [append_chunk c (depth_after (kind c) (open_depth s) = 0) (last (table s))]"
    using False by (auto simp: store_def)
  moreover have "\<not> list_ex (\<lambda>sub. buffer_limit s < length (buffered sub)) (butlast (table s))"
    using assms(2) by (auto simp: overfull_def list_ex_iff dest: in_set_butlastD)
  moreover have "\<not> buffer_limit s < length (buffered
      (append_chunk c (depth_after (kind c) (open_depth s) = 0) (last (table s))))"
    using room by (auto simp: append_chunk_def)
  ultimately show ?thesis by (simp add: overfull_def)
qed

lemma throttled:
  assumes "list_all (\<lambda>e. \<not> is_sub_read e) events"
    and "\<not> overfull (buffer_limit (fan_out p)) (fan_out p)"
    and "overfull (buffer_limit (fan_out p))
          (feed (in_flight p @ produced produce (take k (unread p)) (upstream p)) (fan_out p))"
  shows "consumed (snd (react produce finish events p)) \<le> consumed p + k
    \<and> \<not> overfull (buffer_limit (fan_out p)) (fan_out (snd (react produce finish events p)))"
  using assms
proof (induction events arbitrary: p k)
  case Nil
  then show ?case by simp
next
  case (Cons e events)
  from Cons.prems(1) have rest: "list_all (\<lambda>e. \<not> is_sub_read e) events" by simp
  let ?s = "fan_out p"
  let ?L = "buffer_limit ?s"
  show ?case
  proof (cases e)
    case (READ_SUB j)
    with Cons.prems(1) show ?thesis by simp
  next
    case READ_MAIN
    let ?p = "p\<lparr>fan_out := snd (read_main ?s)\<rparr>"
    have 1: "buffer_limit (fan_out ?p) = ?L" by (simp add: read_main_frame)
    have 2: "\<not> overfull ?L (fan_out ?p)"
      using Cons.prems(2) overfull_cong [of "snd (read_main ?s)" ?s ?L]
      by (simp add: read_main_frame)
    have 3: "overfull ?L
        (feed (in_flight ?p @ produced produce (take k (unread ?p)) (upstream ?p)) (fan_out ?p))"
      using Cons.prems(3)
        feed_table_cong [of "snd (read_main ?s)" ?s
          "in_flight p @ produced produce (take k (unread p)) (upstream p)"]
        overfull_cong [of
          "feed (in_flight p @ produced produce (take k (unread p)) (upstream p))
             (snd (read_main ?s))"
          "feed (in_flight p @ produced produce (take k (unread p)) (upstream p)) ?s" ?L]
      by (simp add: read_main_frame)
    from Cons.IH [OF rest, of ?p k] 1 2 3 show ?thesis
      by (simp add: READ_MAIN react_READ_MAIN del: react.simps)
  next
    case ADVANCE
    let ?q = "advance produce finish p"
    have step: "consumed (snd (react produce finish events ?q)) \<le> consumed p + k
        \<and> \<not> overfull ?L (fan_out (snd (react produce finish events ?q)))"
    proof (cases "in_flight p")
      case (Cons c cs)
      show ?thesis
      proof (cases "stalls c ?s")
        case True
        with Cons have "?q = p" by (simp add: advance_stalled)
        with Cons.IH [OF rest Cons.prems(2,3)] show ?thesis by simp
      next
        case False
        with Cons have q: "?q = p\<lparr>in_flight := cs, fan_out := store c ?s\<rparr>"
          by (simp add: advance_taken)
        have 1: "buffer_limit (fan_out ?q) = ?L" by (simp add: q)
        have 2: "\<not> overfull ?L (fan_out ?q)"
          using store_within [OF False Cons.prems(2)] by (simp add: q)
        have 3: "overfull ?L
            (feed (in_flight ?q @ produced produce (take k (unread ?q)) (upstream ?q))
               (fan_out ?q))"
          using Cons.prems(3) Cons by (simp add: q)
        from Cons.IH [OF rest, of ?q k] 1 2 3 show ?thesis by (simp add: q)
      qed
    next
      case Nil
      show ?thesis
      proof (cases "main_failure ?s \<noteq> None")
        case True
        with Nil have "?q = p" by (simp add: advance_failed)
        with Cons.IH [OF rest Cons.prems(2,3)] show ?thesis by simp
      next
        case False
        then have ok: "main_failure ?s = None" by simp
        show ?thesis
        proof (cases "input_done p")
          case True
          with Nil ok have q: "?q = p\<lparr>fan_out := upstream_end ?s\<rparr>"
            by (simp add: advance_ended)
          have t: "table (upstream_end ?s) = table ?s"
            "open_depth (upstream_end ?s) = open_depth ?s"
            "buffer_limit (upstream_end ?s) = ?L"
            by (simp_all add: upstream_end_def)
          have 2: "\<not> overfull ?L (fan_out ?q)"
            using Cons.prems(2) overfull_cong [OF t(1), of ?L] by (simp add: q)
          have 3: "overfull ?L
              (feed (in_flight ?q @ produced produce (take k (unread ?q)) (upstream ?q))
                 (fan_out ?q))"
            using Cons.prems(3)
              overfull_cong [OF feed_table_cong [OF t(1,2)], of ?L
                "in_flight p @ produced produce (take k (unread p)) (upstream p)"]
            by (simp add: q)
          from Cons.IH [OF rest, of ?q k] t(3) 2 3 show ?thesis by (simp add: q)
        next
          case False
          have more: "produced produce (take k (unread p)) (upstream p) \<noteq> []"
            using Cons.prems(2,3) Nil by auto
          then obtain k' where k: "k = Suc k'"
            by (cases k) simp_all
          from more obtain fragment fragments where u: "unread p = fragment # fragments"
            by (cases "unread p") simp_all
          from more k u obtain st cs where pr: "produce fragment (upstream p) = Inr (st, cs)"
            by (cases "produce fragment (upstream p)") auto
          from advance_fragment [where produce = produce and finish = finish, OF Nil ok False u pr]
          have q: "?q = p\<lparr>unread := fragments, consumed := consumed p + 1, upstream := st,
              in_flight := cs\<rparr>"
            by simp
          have 2: "\<not> overfull ?L (fan_out ?q)" using Cons.prems(2) by (simp add: q)
          have 3: "overfull ?L
              (feed (in_flight ?q @ produced produce (take k' (unread ?q)) (upstream ?q))
                 (fan_out ?q))"
            using Cons.prems(3) Nil by (simp add: q k u pr)
          from Cons.IH [OF rest, of ?q k'] 2 3 show ?thesis by (simp add: q k)
        qed
      qed
    qed
    then show ?thesis by (simp add: ADVANCE)
  qed
qed

text \<open>
  Claim C9. The consumer reads the main sequence of descriptors as often as it likes and
  never reads a sub-stream; the pipeline moves whenever it can. If the chunks that the
  stages before the splitter make of the first \<open>k\<close> fragments are more than one buffer
  of the splitter holds (with nothing read, one sub-stream would get more than \<open>limit\<close>
  chunks), and there are more than \<open>k\<close> fragments, then at every moment at most \<open>k\<close>
  fragments have been consumed, fewer than there are: the unread sub-stream throttles
  the whole upstream. No buffer ever holds more than \<open>limit\<close> chunks. This holds for
  every producer; the splitter and the pipeline are modelled from the specification.
\<close>

theorem backpressure_throttles:
  fixes produce :: "string \<Rightarrow> 'st \<Rightarrow> 'e + ('st \<times> 'n chunk list)"
  assumes "list_all (\<lambda>e. \<not> is_sub_read e) events" and "k < length fragments"
    and "overfull limit
          (feed (produced produce (take k fragments) st)
             (new_splitter limit :: ('n, 'e) splitter))"
  shows "consumed (snd (react produce finish events (new_pipeline st fragments limit))) \<le> k
    \<and> consumed (snd (react produce finish events (new_pipeline st fragments limit)))
        < length fragments
    \<and> \<not> overfull limit
          (fan_out (snd (react produce finish events (new_pipeline st fragments limit))))"
proof -
  let ?P = "new_pipeline st fragments limit :: ('n, 'st, 'e) pipeline"
  have 1: "buffer_limit (fan_out ?P) = limit" "consumed ?P = 0"
    by (simp_all add: new_pipeline_def new_splitter_def)
  have 2: "\<not> overfull (buffer_limit (fan_out ?P)) (fan_out ?P)"
    by (simp add: new_pipeline_def new_splitter_def overfull_def)
  have 3: "overfull (buffer_limit (fan_out ?P))
      (feed (in_flight ?P @ produced produce (take k (unread ?P)) (upstream ?P)) (fan_out ?P))"
    using assms(3) by (simp add: new_pipeline_def new_splitter_def)
  from throttled [OF assms(1) 2 3, of finish] 1 assms(2) show ?thesis
    by simp
qed

lemma produced_two_fragments:
  "produced (through_stages (\<lambda>literal. 0 :: int) (\<lambda>hex. CHR ''?'') results_pattern)
       (take 2 test_fragments) new_stages
     = [\<lparr>kind = ARRAY_START, path = Some [Key ''apples'', Key ''results'']\<rparr>,
        \<lparr>kind = STRING_START VALUE, path = Some [Key ''apples'', Key ''results'', Index 0]\<rparr>,
        \<lparr>kind = STRING_CHUNK VALUE ''apple1'',
          path = Some [Key ''apples'', Key ''results'', Index 0]\<rparr>,
        \<lparr>kind = STRING_END VALUE, path = Some [Key ''apples'', Key ''results'', Index 0]\<rparr>]"
  by (simp add: test_fragments_def through_stages_def new_stages_def new_tokenizer_def
      lex_char_def between_def whitespace_def wants_value_def wants_key_def string_done_def
      value_done_def is_digit_def path_of_def select_chunk_def results_pattern_def
      depth_after_def)

theorem backpressure_throttles_witness:
  "list_all (\<lambda>e. \<not> is_sub_read e)
     [ADVANCE, READ_MAIN, ADVANCE, ADVANCE, ADVANCE, ADVANCE, READ_MAIN, ADVANCE, ADVANCE]
   \<and> (2::nat) < length test_fragments
   \<and> overfull 2
       (feed (produced (through_stages (\<lambda>literal. 0 :: int) (\<lambda>hex. CHR ''?'') results_pattern)
                (take 2 test_fragments) new_stages)
          (new_splitter 2 :: (int, parse_error) splitter))
   \<and> consumed (snd (react (through_stages (\<lambda>literal. 0 :: int) (\<lambda>hex. CHR ''?'') results_pattern)
         (at_end_of_input (\<lambda>literal. 0 :: int) results_pattern)
         [ADVANCE, READ_MAIN, ADVANCE, ADVANCE, ADVANCE, ADVANCE, READ_MAIN, ADVANCE, ADVANCE]
         (new_pipeline new_stages test_fragments 2))) \<le> 2"
proof -
  have 1: "list_all (\<lambda>e. \<not> is_sub_read e)
      [ADVANCE, READ_MAIN, ADVANCE, ADVANCE, ADVANCE, ADVANCE, READ_MAIN, ADVANCE, ADVANCE]"
    by simp
  have 2: "(2::nat) < length test_fragments"
    by (simp add: test_fragments_def)
  have 3: "overfull 2
      (feed (produced (through_stages (\<lambda>literal. 0 :: int) (\<lambda>hex. CHR ''?'') results_pattern)
               (take 2 test_fragments) new_stages)
         (new_splitter 2 :: (int, parse_error) splitter))"
    by (simp only: produced_two_fragments)
      (simp add: overfull_def new_splitter_def store_def append_chunk_def depth_after_def)
  from backpressure_throttles [OF 1 2 3,
      of "at_end_of_input (\<lambda>literal. 0 :: int) results_pattern"] 1 2 3
  show ?thesis by simp
qed

section \<open>Reading out of order\<close>

text \<open>
  The order of reading of the second test of the splitter, with the fragments of the
  tests and buffers of fourteen chunks: the pipeline runs to its end while nothing is
  read, then the main sequence is read to its end, then the second sub-stream is read
  to its end before the first one is started, then the first sub-stream is read. The
  first lemma is the moment before the first sub-stream is started, the second lemma
  the end.
\<close>

lemma later_sub_stream_first:
  "case react (through_stages (\<lambda>literal. 0 :: int) (\<lambda>hex. CHR ''?'') results_pattern)
          (at_end_of_input (\<lambda>literal. 0 :: int) results_pattern)
          ([ADVANCE, ADVANCE, ADVANCE, ADVANCE, ADVANCE, ADVANCE, ADVANCE, ADVANCE,
            ADVANCE, ADVANCE, ADVANCE, ADVANCE, ADVANCE, ADVANCE, ADVANCE, ADVANCE,
            ADVANCE, ADVANCE, ADVANCE, ADVANCE, ADVANCE, ADVANCE, ADVANCE, ADVANCE,
            ADVANCE, ADVANCE, ADVANCE, ADVANCE, ADVANCE, ADVANCE, ADVANCE, READ_MAIN,
            READ_MAIN, READ_MAIN, READ_SUB 1, READ_SUB 1, READ_SUB 1, READ_SUB 1, READ_SUB
            1, READ_SUB 1, READ_SUB 1, READ_SUB 1, READ_SUB 1, READ_SUB 1, READ_SUB 1,
            READ_SUB 1, READ_SUB 1, READ_SUB 1, READ_SUB 1])
          (new_pipeline new_stages test_fragments 14) of
     (obs, p) \<Rightarrow>
       consumed p = 7
       \<and> descriptors obs = [(0, Some [Key ''apples'', Key ''results'']),
                             (1, Some [Key ''cherries'', Key ''results''])]
       \<and> MAIN Finished \<in> set obs
       \<and> received 0 obs = []
       \<and> deserialize (\<lambda>v. ''?'') (received 1 obs)
           = [(JObject ObjectPrototype
                 [(''1'', JString ''cherry1''), (''2'', JString ''cherry2'')],
               Some [Key ''cherries'', Key ''results''])]
       \<and> SUB 1 Finished \<in> set obs"
  by (simp add: test_fragments_def through_stages_def at_end_of_input_def new_stages_def
      new_tokenizer_def lex_char_def between_def whitespace_def wants_value_def wants_key_def
      string_done_def value_done_def is_digit_def path_of_def select_chunk_def
      results_pattern_def depth_after_def new_pipeline_def new_splitter_def advance_def
      accept_def stalls_def store_def append_chunk_def read_main_def read_sub_def
      read_from_def upstream_end_def lex_end_def deserialize_def initial_state_def
      obj_assign_def create_property_def is_array_index_def index_of_def)

lemma earlier_sub_stream_last:
  "case react (through_stages (\<lambda>literal. 0 :: int) (\<lambda>hex. CHR ''?'') results_pattern)
          (at_end_of_input (\<lambda>literal. 0 :: int) results_pattern)
          ([ADVANCE, ADVANCE, ADVANCE, ADVANCE, ADVANCE, ADVANCE, ADVANCE, ADVANCE,
            ADVANCE, ADVANCE, ADVANCE, ADVANCE, ADVANCE, ADVANCE, ADVANCE, ADVANCE,
            ADVANCE, ADVANCE, ADVANCE, ADVANCE, ADVANCE, ADVANCE, ADVANCE, ADVANCE,
            ADVANCE, ADVANCE, ADVANCE, ADVANCE, ADVANCE, ADVANCE, ADVANCE, READ_MAIN,
            READ_MAIN, READ_MAIN, READ_SUB 1, READ_SUB 1, READ_SUB 1, READ_SUB 1, READ_SUB
            1, READ_SUB 1, READ_SUB 1, READ_SUB 1, READ_SUB 1, READ_SUB 1, READ_SUB 1,
            READ_SUB 1, READ_SUB 1, READ_SUB 1, READ_SUB 1, READ_SUB 0, READ_SUB 0,
            READ_SUB 0, READ_SUB 0, READ_SUB 0, READ_SUB 0, READ_SUB 0, READ_SUB 0,
            READ_SUB 0])
          (new_pipeline new_stages test_fragments 14) of
     (obs, p) \<Rightarrow>
       deserialize (\<lambda>v. ''?'') (received 0 obs)
           = [(JArray [JString ''apple1'', JString ''apple2''],
               Some [Key ''apples'', Key ''results''])]
       \<and> SUB 0 Finished \<in> set obs
       \<and> deserialize (\<lambda>v. ''?'') (received 1 obs)
           = [(JObject ObjectPrototype
                 [(''1'', JString ''cherry1''), (''2'', JString ''cherry2'')],
               Some [Key ''cherries'', Key ''results''])]
       \<and> SUB 1 Finished \<in> set obs"
  by (simp add: test_fragments_def through_stages_def at_end_of_input_def new_stages_def
      new_tokenizer_def lex_char_def between_def whitespace_def wants_value_def wants_key_def
      string_done_def value_done_def is_digit_def path_of_def select_chunk_def
      results_pattern_def depth_after_def new_pipeline_def new_splitter_def advance_def
      accept_def stalls_def store_def append_chunk_def read_main_def read_sub_def
      read_from_def upstream_end_def lex_end_def deserialize_def initial_state_def
      obj_assign_def create_property_def is_array_index_def index_of_def)

end
